theory Spec2Isabelle
  imports Main "HOL-Library.Sublist" "HOL-Library.AList"
begin

section \<open>Python values and errors\<close>

text \<open>
  A shallow embedding of \<^verbatim>\<open>dmf2json.py\<close>. A Python \<^verbatim>\<open>str\<close> is a \<^typ>\<open>string\<close>
  whose characters are read as the code points below 256; texts with code points above
  that are outside this model. Every exception the source can raise is a value of
  \<open>error\<close>, and a function that can raise returns \<open>error + 'a\<close>.
\<close>

datatype error = ValueError | KeyError | IndexError | TypeError | AttributeError

text \<open>
  The values the parser stores: \<^verbatim>\<open>None\<close>, booleans, integers, strings, tuples of
  integers (from \<^verbatim>\<open>to_ints\<close>), lists, and dictionaries with string keys kept in
  insertion order (\<^verbatim>\<open>OrderedDict\<close>, and \<^verbatim>\<open>dict\<close> since Python 3.7).
\<close>

datatype pyval =
    PNone
  | PBool bool
  | PInt int
  | PStr string
  | PTuple "int list"
  | PList "pyval list"
  | PDict "(string \<times> pyval) list"

definition bind :: "error + 'a \<Rightarrow> ('a \<Rightarrow> error + 'b) \<Rightarrow> error + 'b" where
  "bind m f = (case m of Inl e \<Rightarrow> Inl e | Inr x \<Rightarrow> f x)"

section \<open>String primitives of Python\<close>

text \<open>\<^verbatim>\<open>str.isspace\<close> on one character, for code points below 256.\<close>

definition is_space :: "char \<Rightarrow> bool" where
  "is_space c = (c \<in> {CHR 0x09, CHR 0x0A, CHR 0x0B, CHR 0x0C, CHR 0x0D,
                       CHR 0x1C, CHR 0x1D, CHR 0x1E, CHR 0x1F, CHR 0x20, CHR 0x85, CHR 0xA0})"

text \<open>\<^verbatim>\<open>s.lstrip()\<close>, \<^verbatim>\<open>s.rstrip()\<close> and \<^verbatim>\<open>s.strip(chars)\<close>.\<close>

definition lstrip :: "string \<Rightarrow> string" where
  "lstrip s = dropWhile is_space s"

definition rstrip :: "string \<Rightarrow> string" where
  "rstrip s = rev (dropWhile is_space (rev s))"

definition strip_chars :: "string \<Rightarrow> string \<Rightarrow> string" where
  "strip_chars cs s = rev (dropWhile (\<lambda>c. c \<in> set cs) (rev (dropWhile (\<lambda>c. c \<in> set cs) s)))"

text \<open>
  \<^verbatim>\<open>s.split()\<close> without a separator: the maximal runs of non-whitespace characters.
  \<open>split_ws w s\<close> holds the word under construction, reversed, in \<open>w\<close>.
\<close>

fun split_ws :: "string \<Rightarrow> string \<Rightarrow> string list" where
  "split_ws w [] = (if w = [] then [] else [rev w])"
| "split_ws w (c # cs) =
     (if is_space c then (if w = [] then split_ws [] cs else rev w # split_ws [] cs)
      else split_ws (c # w) cs)"

definition py_split :: "string \<Rightarrow> string list" where
  "py_split s = split_ws [] s"

text \<open>
  \<^verbatim>\<open>s.split(sep)\<close> with a non-empty separator: a scan from the left that cuts at each
  occurrence of \<open>sep\<close> and resumes after it. \<open>split_on sep w s\<close> holds the piece under
  construction, reversed, in \<open>w\<close>.
\<close>

function split_on :: "string \<Rightarrow> string \<Rightarrow> string \<Rightarrow> string list" where
  "split_on sep w [] = [rev w]"
| "split_on sep w (c # cs) =
     (if sep \<noteq> [] \<and> prefix sep (c # cs)
      then rev w # split_on sep [] (drop (length sep) (c # cs))
      else split_on sep (c # w) cs)"
  by pat_completeness auto
termination
  by (relation "measure (\<lambda>(sep, w, s). length s)") (auto simp: neq_Nil_conv)

definition py_split_sep :: "string \<Rightarrow> string \<Rightarrow> string list" where
  "py_split_sep sep s = split_on sep [] s"

text \<open>\<open>occurs sep s\<close>: the expression \<^verbatim>\<open>sep in s\<close>.\<close>

fun occurs :: "string \<Rightarrow> string \<Rightarrow> bool" where
  "occurs sep [] = (sep = [])"
| "occurs sep (c # cs) = (prefix sep (c # cs) \<or> occurs sep cs)"

text \<open>\<^verbatim>\<open>s.replace('-', '_')\<close>.\<close>

definition replace_hyphen :: "string \<Rightarrow> string" where
  "replace_hyphen s = map (\<lambda>c. if c = CHR ''-'' then CHR ''_'' else c) s"

section \<open>The two line splitters\<close>

text \<open>
  \<^verbatim>\<open>_parse_key_value\<close>: the unpacking \<^verbatim>\<open>key, value = string.split()\<close> raises
  \<^verbatim>\<open>ValueError\<close> unless the split has exactly two parts.
\<close>

definition parse_key_value :: "string \<Rightarrow> error + (string \<times> string option)" where
  "parse_key_value s =
     (if CHR '' '' \<in> set s
      then (case py_split s of
              [key, v] \<Rightarrow> Inr (key, Some (strip_chars [CHR 0x22] v))
            | _ \<Rightarrow> Inl ValueError)
      else Inr (s, None))"

text \<open>\<^verbatim>\<open>_parse_key_eq_sign_value\<close>, with the same unpacking.\<close>

definition parse_key_eq_sign_value :: "string \<Rightarrow> error + (string \<times> string)" where
  "parse_key_eq_sign_value s =
     (case py_split_sep '' = '' s of
        [key, v] \<Rightarrow> Inr (key, strip_chars [CHR 0x22] v)
      | _ \<Rightarrow> Inl ValueError)"

section \<open>Integers and tuples of integers\<close>

text \<open>
  \<^verbatim>\<open>int(s)\<close> on a string, base ten (Python 3.6 and later, without the limit on the
  number of digits that 3.11 added): white space around the literal is skipped, one sign
  is allowed, and single underscores may stand between digits only. The white space that
  \<^verbatim>\<open>int\<close> skips is narrower than \<^verbatim>\<open>str.isspace\<close>.
\<close>

definition int_space :: "char \<Rightarrow> bool" where
  "int_space c = (c \<in> {CHR 0x09, CHR 0x0A, CHR 0x0B, CHR 0x0C, CHR 0x0D, CHR 0x20, CHR 0x85, CHR 0xA0})"

definition is_decimal :: "char \<Rightarrow> bool" where
  "is_decimal c = (c \<in> set ''0123456789'')"

definition digit_of :: "char \<Rightarrow> int" where
  "digit_of c = int (of_char c) - 48"

fun digits_val :: "int \<Rightarrow> bool \<Rightarrow> string \<Rightarrow> int option" where
  "digits_val acc after_digit [] = (if after_digit then Some acc else None)"
| "digits_val acc after_digit (c # cs) =
     (if is_decimal c then digits_val (acc * 10 + digit_of c) True cs
      else if c = CHR ''_'' \<and> after_digit then digits_val acc False cs
      else None)"

definition py_int :: "string \<Rightarrow> error + int" where
  "py_int s =
     (let t = rev (dropWhile int_space (rev (dropWhile int_space s)));
          (sign, body) = (case t of
                            [] \<Rightarrow> (1, [])
                          | c # r \<Rightarrow> if c = CHR ''-'' then (- 1, r)
                                     else if c = CHR ''+'' then (1, r) else (1, t))
      in case digits_val 0 False body of
           None \<Rightarrow> Inl ValueError
         | Some n \<Rightarrow> Inr (sign * n))"

text \<open>\<^verbatim>\<open>str.isdigit\<close>: not empty, and every character a digit (the superscripts count).\<close>

definition isdigit :: "string \<Rightarrow> bool" where
  "isdigit s = (s \<noteq> [] \<and> list_all (\<lambda>c. is_decimal c \<or> c \<in> {CHR 0xB2, CHR 0xB3, CHR 0xB9}) s)"

text \<open>\<open>map_result f xs\<close> applies \<open>f\<close> from the left and stops at the first error.\<close>

fun map_result :: "('a \<Rightarrow> error + 'b) \<Rightarrow> 'a list \<Rightarrow> error + 'b list" where
  "map_result f [] = Inr []"
| "map_result f (x # xs) = bind (f x) (\<lambda>y. bind (map_result f xs) (\<lambda>ys. Inr (y # ys)))"

definition to_ints :: "string \<Rightarrow> string \<Rightarrow> error + int list" where
  "to_ints s delimiter = map_result py_int (py_split_sep delimiter s)"

definition DEFAULT_VALUES_MAP :: "string \<rightharpoonup> pyval" where
  "DEFAULT_VALUES_MAP = map_of
     [(''none'', PNone), (''false'', PBool False), (''true'', PBool True)]"

definition DELIMITER_MAP :: "string \<rightharpoonup> string" where
  "DELIMITER_MAP = map_of
     [(''anchor1'', '',''), (''anchor2'', '',''), (''pos'', '',''), (''size'', ''x''),
      (''cell_span'', ''x''), (''cells'', ''x''), (''current_cell'', ''x'')]"

section \<open>Objects\<close>

text \<open>
  Subscripting, item assignment, iteration and the dictionary and list methods raise
  \<^verbatim>\<open>TypeError\<close> or \<^verbatim>\<open>AttributeError\<close> on an object of another type. The parser never
  builds such a state (lemma \<open>parse_lines_ok\<close> below for the store); the model
  returns an error there as well, \<open>TypeError\<close> where nothing more specific applies.
\<close>

definition truthy :: "pyval \<Rightarrow> bool" where
  "truthy v = (case v of
       PNone \<Rightarrow> False | PBool b \<Rightarrow> b | PInt i \<Rightarrow> i \<noteq> 0 | PStr s \<Rightarrow> s \<noteq> []
     | PTuple t \<Rightarrow> t \<noteq> [] | PList l \<Rightarrow> l \<noteq> [] | PDict d \<Rightarrow> d \<noteq> [])"

text \<open>\<^verbatim>\<open>obj[k] = v\<close>: an existing key keeps its place, a new one goes last.\<close>

definition set_item :: "string \<Rightarrow> pyval \<Rightarrow> pyval \<Rightarrow> error + pyval" where
  "set_item k v obj = (case obj of PDict d \<Rightarrow> Inr (PDict (AList.update k v d)) | _ \<Rightarrow> Inl TypeError)"

text \<open>\<^verbatim>\<open>obj['controls']\<close>, read as the list it holds.\<close>

definition get_controls :: "pyval \<Rightarrow> error + pyval list" where
  "get_controls obj =
     (case obj of
        PDict d \<Rightarrow> (case map_of d ''controls'' of
                      None \<Rightarrow> Inl KeyError
                    | Some (PList cs) \<Rightarrow> Inr cs
                    | Some _ \<Rightarrow> Inl TypeError)
      | _ \<Rightarrow> Inl TypeError)"

text \<open>The object \<open>obj\<close> after its \<^verbatim>\<open>controls\<close> list was mutated into \<open>cs\<close>.\<close>

definition with_controls :: "pyval list \<Rightarrow> pyval \<Rightarrow> pyval" where
  "with_controls cs obj =
     (case obj of PDict d \<Rightarrow> PDict (AList.update ''controls'' (PList cs) d) | _ \<Rightarrow> obj)"

section \<open>The parser state\<close>

text \<open>
  The category objects live in \<open>store\<close>, in creation order, and an address is an index
  into it: \<^verbatim>\<open>self.category\<close> and the three lists hold addresses, so that appending an
  element to the current category is seen through the list that holds the category.
  \<^verbatim>\<open>self.element\<close> is the address of its category and its position in that category's
  \<^verbatim>\<open>controls\<close>. \<open>None\<close> is Python's \<^verbatim>\<open>None\<close>.
\<close>

record parser =
  store :: "pyval list"
  macrolists :: "nat list"
  menubars :: "nat list"
  windows :: "nat list"
  category :: "nat option"
  element :: "(nat \<times> nat) option"

definition init :: parser where
  "init = \<lparr>store = [], macrolists = [], menubars = [], windows = [],
           category = None, element = None\<rparr>"

text \<open>The fresh \<^verbatim>\<open>OrderedDict\<close> of a header line; \<^verbatim>\<open>if category_id:\<close> tests truth.\<close>

definition header_dict :: "string \<Rightarrow> string option \<Rightarrow> (string \<times> pyval) list" where
  "header_dict t i =
     (''type'', PStr t) #
     (case i of None \<Rightarrow> [] | Some s \<Rightarrow> if s \<noteq> [] then [(''id'', PStr s)] else [])"

definition parse_category :: "string \<Rightarrow> parser \<Rightarrow> error + parser" where
  "parse_category line st =
     bind (parse_key_value line) (\<lambda>(category_type, category_id).
       let a = length (store st);
           c = PDict (header_dict category_type category_id @ [(''controls'', PList [])]);
           st1 = st\<lparr>store := store st @ [c], category := Some a\<rparr>
       in Inr (if category_type = ''macro'' then st1\<lparr>macrolists := macrolists st1 @ [a]\<rparr>
               else if category_type = ''menu'' then st1\<lparr>menubars := menubars st1 @ [a]\<rparr>
               else if category_type = ''window'' then st1\<lparr>windows := windows st1 @ [a]\<rparr>
               else st1))"

definition parse_element :: "string \<Rightarrow> parser \<Rightarrow> error + parser" where
  "parse_element line0 st =
     (let line = lstrip line0 in
      bind (parse_key_value line) (\<lambda>(element_type, element_id).
        let e = PDict (header_dict element_type element_id) in
        case category st of
          None \<Rightarrow> Inl TypeError
        | Some a \<Rightarrow>
            bind (get_controls (store st ! a)) (\<lambda>cs.
              Inr (st\<lparr>store := (store st)[a := with_controls (cs @ [e]) (store st ! a)],
                      element := Some (a, length cs)\<rparr>))))"

text \<open>The chain of tests of \<^verbatim>\<open>_parse_attribute\<close> that turns the text into a value.\<close>

definition coerce :: "string \<Rightarrow> string \<Rightarrow> error + pyval" where
  "coerce name v =
     (case DEFAULT_VALUES_MAP v of
        Some d \<Rightarrow> Inr d
      | None \<Rightarrow>
          (case DELIMITER_MAP name of
             Some delimiter \<Rightarrow> bind (to_ints v delimiter) (\<lambda>t. Inr (PTuple t))
           | None \<Rightarrow>
               if isdigit v then bind (py_int v) (\<lambda>i. Inr (PInt i))
               else if name = ''saved_params'' then Inr (PList (map PStr (py_split_sep '';'' v)))
               else Inr (PStr v)))"

text \<open>\<^verbatim>\<open>self.element[k] = v\<close>.\<close>

definition set_element :: "string \<Rightarrow> pyval \<Rightarrow> parser \<Rightarrow> error + parser" where
  "set_element k v st =
     (case element st of
        None \<Rightarrow> Inl TypeError
      | Some (a, i) \<Rightarrow>
          bind (get_controls (store st ! a)) (\<lambda>cs.
          bind (set_item k v (cs ! i)) (\<lambda>e.
            Inr (st\<lparr>store := (store st)[a := with_controls (cs[i := e]) (store st ! a)]\<rparr>))))"

definition parse_attribute :: "string \<Rightarrow> parser \<Rightarrow> error + parser" where
  "parse_attribute line0 st =
     (let line = lstrip line0 in
      bind (parse_key_eq_sign_value line) (\<lambda>(name0, value0).
        let name = replace_hyphen name0;
            v = strip_chars [CHR 0x0A, CHR 0x22] (replace_hyphen value0)
        in bind (coerce name v) (\<lambda>val.
             if name = ''type''
             then set_element ''type'' (if val = PStr ''MAIN'' then PStr ''WINDOW'' else val) st
             else set_element name val st)))"

section \<open>Reading the file\<close>

text \<open>
  The lines a text file yields when iterated, with universal newlines: each of
  \<^verbatim>\<open>\n\<close>, \<^verbatim>\<open>\r\<close> and \<^verbatim>\<open>\r\n\<close> ends a line and is read as \<^verbatim>\<open>\n\<close>. The flag says that
  the last character was \<^verbatim>\<open>\r\<close>; \<open>w\<close> is the line under construction, reversed.
\<close>

fun file_lines :: "bool \<Rightarrow> string \<Rightarrow> string \<Rightarrow> string list" where
  "file_lines cr w [] = (if w = [] then [] else [rev w])"
| "file_lines cr w (c # cs) =
     (if c = CHR 0x0A \<and> cr then file_lines False w cs
      else if c = CHR 0x0A \<or> c = CHR 0x0D then rev (CHR 0x0A # w) # file_lines (c = CHR 0x0D) [] cs
      else file_lines False (c # w) cs)"

text \<open>The body of the loop over the lines.\<close>

definition parse_line :: "string \<Rightarrow> parser \<Rightarrow> error + parser" where
  "parse_line line0 st =
     (let line = rstrip line0 in
      if line = [] then Inr st
      else if prefix [CHR 0x09, CHR 0x09] line then parse_attribute line st
      else if prefix [CHR 0x09] line then parse_element line st
      else parse_category line st)"

fun parse_lines :: "string list \<Rightarrow> parser \<Rightarrow> error + parser" where
  "parse_lines [] st = Inr st"
| "parse_lines (l # ls) st = bind (parse_line l st) (parse_lines ls)"

text \<open>
  The body of the loop over \<^verbatim>\<open>self.windows\<close> that ends \<^verbatim>\<open>parse_file\<close>, for the window
  at address \<open>a\<close>; \<^verbatim>\<open>window['controls'][0]\<close> raises \<^verbatim>\<open>IndexError\<close> on an empty list.
\<close>

definition mark_pane :: "nat \<Rightarrow> parser \<Rightarrow> error + parser" where
  "mark_pane a st =
     bind (get_controls (store st ! a)) (\<lambda>cs.
       case cs of
         [] \<Rightarrow> Inl IndexError
       | e # rest \<Rightarrow>
           (case e of
              PDict d \<Rightarrow>
                (case map_of d ''is_pane'' of
                   None \<Rightarrow> Inr st
                 | Some is_pane \<Rightarrow>
                     let d1 = AList.delete ''is_pane'' d;
                         d2 = (if truthy is_pane then AList.update ''type'' (PStr ''PANE'') d1 else d1)
                     in Inr (st\<lparr>store := (store st)[a := with_controls (PDict d2 # rest) (store st ! a)]\<rparr>))
            | _ \<Rightarrow> Inl TypeError))"

fun mark_panes :: "nat list \<Rightarrow> parser \<Rightarrow> error + parser" where
  "mark_panes [] st = Inr st"
| "mark_panes (a # as) st = bind (mark_pane a st) (mark_panes as)"

text \<open>\<^verbatim>\<open>parse_file\<close>, on the text of the file, from the state \<open>st\<close>.\<close>

definition parse_file :: "string \<Rightarrow> parser \<Rightarrow> error + parser" where
  "parse_file text st =
     bind (parse_lines (file_lines False [] text) st) (\<lambda>st1. mark_panes (windows st1) st1)"

section \<open>Post-processing\<close>

text \<open>
  After \<^verbatim>\<open>parse_file\<close> the categories are only reached through the three lists, and
  no address occurs twice in them (lemma \<open>parse_file_addresses\<close> below), so
  \<^verbatim>\<open>post_process\<close> is modelled on the objects themselves: it returns the contents
  of \<^verbatim>\<open>self.macrolists\<close>, \<^verbatim>\<open>self.menubars\<close> and \<^verbatim>\<open>self.windows\<close> after the call,
  the three lists that \<^verbatim>\<open>to_json\<close> serialises. An error of an earlier loop comes before
  the later loops, as in the source.
\<close>

definition post_macrolist :: "pyval \<Rightarrow> error + pyval" where
  "post_macrolist macrolist =
     (case macrolist of
        PDict d \<Rightarrow>
          (let d1 = AList.update ''type'' (PStr ''MACROLIST'') d in
           case map_of d1 ''controls'' of
             None \<Rightarrow> Inl KeyError
           | Some (PList macros) \<Rightarrow>
               bind (map_result (set_item ''type'' (PStr ''MACRO'')) macros) (\<lambda>macros1.
                 Inr (PDict (AList.update ''macros'' (PList macros1) (AList.delete ''controls'' d1))))
           | Some _ \<Rightarrow> Inl TypeError)
      | _ \<Rightarrow> Inl TypeError)"

text \<open>
  The keys of \<^verbatim>\<open>categories\<close> and the members of \<^verbatim>\<open>groups\<close> are hashed and compared
  with \<^verbatim>\<open>==\<close>, under which \<^verbatim>\<open>True\<close> is \<^verbatim>\<open>1\<close> and \<^verbatim>\<open>False\<close> is \<^verbatim>\<open>0\<close>: \<open>key_of\<close>
  picks one value of each class. The key objects of \<^verbatim>\<open>categories\<close> are never read
  back, so the association list holds \<open>key_of\<close> of each key. Lists and dictionaries
  cannot be hashed.
\<close>

definition hashable :: "pyval \<Rightarrow> bool" where
  "hashable v = (case v of PList l \<Rightarrow> False | PDict d \<Rightarrow> False | _ \<Rightarrow> True)"

definition key_of :: "pyval \<Rightarrow> pyval" where
  "key_of v = (case v of PBool b \<Rightarrow> PInt (if b then 1 else 0) | _ \<Rightarrow> v)"

text \<open>The record made for a category name that has none yet.\<close>

definition new_category :: "pyval \<Rightarrow> pyval" where
  "new_category category_name =
     PDict [(''name'', category_name), (''command'', PStr []),
            (''saved_params'', PStr ''is_checked''), (''actions'', PList [])]"

text \<open>\<^verbatim>\<open>categories[category_name]['actions'].append(menu)\<close>, on the key \<open>k\<close>.\<close>

definition append_action :: "pyval \<Rightarrow> pyval \<Rightarrow> (pyval \<times> pyval) list \<Rightarrow> error + (pyval \<times> pyval) list" where
  "append_action k menu categories =
     (case map_of categories k of
        None \<Rightarrow> Inl KeyError
      | Some (PDict r) \<Rightarrow>
          (case map_of r ''actions'' of
             None \<Rightarrow> Inl KeyError
           | Some (PList acts) \<Rightarrow>
               Inr (AList.update k (PDict (AList.update ''actions'' (PList (acts @ [menu])) r)) categories)
           | Some _ \<Rightarrow> Inl AttributeError)
      | Some _ \<Rightarrow> Inl TypeError)"

text \<open>
  \<^verbatim>\<open>groups.add(g)\<close>: the set is held as the list of its members, without repetition.
  The order of that list is a matter of representation; the order in which the set is
  read is that of \<open>list_of_set\<close> below.
\<close>

definition add_group :: "pyval \<Rightarrow> pyval list \<Rightarrow> pyval list" where
  "add_group g groups = (if key_of g \<in> key_of ` set groups then groups else groups @ [g])"

text \<open>
  \<^verbatim>\<open>list(groups)\<close>: the members of the set in the order in which Python iterates it.
  That order follows the hashes, it is not the order of insertion, and for strings it
  changes from one run to the next; it is the parameter \<open>order\<close>, from the members as
  \<open>add_group\<close> holds them to the list. The members are distinct, so a list of the
  same length with the same members is a permutation of them; where \<open>order\<close> returns
  anything else the members are taken as they are, so that every \<open>order\<close> stands for
  an order of the set.
\<close>

definition list_of_set :: "(pyval list \<Rightarrow> pyval list) \<Rightarrow> pyval list \<Rightarrow> pyval list" where
  "list_of_set order groups =
     (if length (order groups) = length groups \<and> set (order groups) = set groups
      then order groups else groups)"

text \<open>
  What the branch for an entry with a \<^verbatim>\<open>category\<close> appends to the category's actions:
  \<open>m\<close> is the entry after \<^verbatim>\<open>menu.pop('category')\<close>.
\<close>

definition as_action :: "(string \<times> pyval) list \<Rightarrow> pyval" where
  "as_action m =
     (case map_of m ''name'' of
        None \<Rightarrow> PDict [(''type'', PStr ''SEPARATOR'')]
      | Some n \<Rightarrow> if truthy n then PDict (AList.update ''type'' (PStr ''ACTION'') m)
                  else PDict [(''type'', PStr ''SEPARATOR'')])"

text \<open>
  What the branch for an entry without a \<^verbatim>\<open>category\<close> makes of it: the type, an
  empty list of actions, and \<^verbatim>\<open>command\<close> and \<^verbatim>\<open>saved_params\<close> removed.
\<close>

definition as_menu :: "(string \<times> pyval) list \<Rightarrow> (string \<times> pyval) list" where
  "as_menu m =
     AList.delete ''saved_params'' (AList.delete ''command''
       (AList.update ''actions'' (PList []) (AList.update ''type'' (PStr ''MENU'') m)))"

text \<open>The set \<^verbatim>\<open>groups\<close> after the same branch: only a named entry adds its group.\<close>

definition collect_group :: "(string \<times> pyval) list \<Rightarrow> pyval list \<Rightarrow> error + pyval list" where
  "collect_group m groups =
     (case map_of m ''name'' of
        None \<Rightarrow> Inr groups
      | Some n \<Rightarrow>
          if \<not> truthy n then Inr groups
          else (case map_of m ''group'' of
                  None \<Rightarrow> Inr groups
                | Some g \<Rightarrow> if \<not> truthy g then Inr groups
                            else if hashable g then Inr (add_group g groups)
                            else Inl TypeError))"

text \<open>The body of the loop over \<^verbatim>\<open>menus\<close>, on the pair of \<^verbatim>\<open>categories\<close> and \<^verbatim>\<open>groups\<close>.\<close>

definition menu_step ::
  "pyval \<Rightarrow> (pyval \<times> pyval) list \<times> pyval list \<Rightarrow> error + ((pyval \<times> pyval) list \<times> pyval list)" where
  "menu_step menu cg =
     (case cg of (categories, groups) \<Rightarrow>
      case menu of
        PDict m \<Rightarrow>
          (case map_of m ''category'' of
             None \<Rightarrow>
               (let m1 = as_menu m
                in case map_of m1 ''name'' of
                     None \<Rightarrow> Inl KeyError
                   | Some n \<Rightarrow>
                       if hashable n then Inr (AList.update (key_of n) (PDict m1) categories, groups)
                       else Inl TypeError)
           | Some category_name \<Rightarrow>
               (let m1 = AList.delete ''category'' m in
                if \<not> hashable category_name then Inl TypeError
                else
                  let k = key_of category_name;
                      categories1 = (if map_of categories k = None
                                     then AList.update k (new_category category_name) categories
                                     else categories)
                  in bind (collect_group m1 groups) (\<lambda>groups1.
                     bind (append_action k (as_action m1) categories1) (\<lambda>categories2.
                       Inr (categories2, groups1)))))
      | _ \<Rightarrow> Inl TypeError)"

fun menu_loop ::
  "pyval list \<Rightarrow> (pyval \<times> pyval) list \<times> pyval list \<Rightarrow> error + ((pyval \<times> pyval) list \<times> pyval list)" where
  "menu_loop [] cg = Inr cg"
| "menu_loop (menu # menus) cg = bind (menu_step menu cg) (menu_loop menus)"

definition post_menubar :: "(pyval list \<Rightarrow> pyval list) \<Rightarrow> pyval \<Rightarrow> error + pyval" where
  "post_menubar order menubar =
     (case menubar of
        PDict d \<Rightarrow>
          (case map_of d ''controls'' of
             None \<Rightarrow> Inl KeyError
           | Some (PList menus) \<Rightarrow>
               bind (menu_loop menus ([], [])) (\<lambda>(categories, groups).
                 Inr (PDict (AList.update ''groups'' (PList (list_of_set order groups))
                            (AList.update ''menus'' (PList (map snd categories))
                            (AList.update ''type'' (PStr ''MENUBAR'')
                            (AList.delete ''controls'' d))))))
           | Some _ \<Rightarrow> Inl TypeError)
      | _ \<Rightarrow> Inl TypeError)"

text \<open>\<^verbatim>\<open>controls.pop(0)\<close> raises \<^verbatim>\<open>IndexError\<close> on an empty list.\<close>

definition post_window :: "pyval \<Rightarrow> error + pyval" where
  "post_window window =
     bind (get_controls window) (\<lambda>controls.
       case controls of
         [] \<Rightarrow> Inl IndexError
       | true_window # rest \<Rightarrow> set_item ''controls'' (PList rest) true_window)"

definition post_process ::
  "(pyval list \<Rightarrow> pyval list) \<Rightarrow> parser \<Rightarrow> error + (pyval list \<times> pyval list \<times> pyval list)" where
  "post_process order st =
     bind (map_result post_macrolist (map (\<lambda>a. store st ! a) (macrolists st))) (\<lambda>ms.
     bind (map_result (post_menubar order) (map (\<lambda>a. store st ! a) (menubars st))) (\<lambda>bs.
     bind (map_result post_window (map (\<lambda>a. store st ! a) (windows st))) (\<lambda>ws.
       Inr (ms, bs, ws))))"

text \<open>
  \<^verbatim>\<open>parse\<close>, on the text of the input file, for a fresh parser and the order \<open>order\<close>
  of the sets.
\<close>

definition parse ::
  "(pyval list \<Rightarrow> pyval list) \<Rightarrow> string \<Rightarrow> error + (pyval list \<times> pyval list \<times> pyval list)" where
  "parse order text = bind (parse_file text init) (post_process order)"

section \<open>Shapes of the records of a menu bar\<close>

text \<open>
  An action without a \<^verbatim>\<open>category\<close> field, and a record of \<^verbatim>\<open>categories\<close> without
  one whose \<^verbatim>\<open>actions\<close> is a list of such actions: the invariant of the loop over the
  menu entries.
\<close>

definition action_ok :: "pyval \<Rightarrow> bool" where
  "action_ok a = (case a of PDict m \<Rightarrow> map_of m ''category'' = None | _ \<Rightarrow> False)"

definition record_ok :: "pyval \<Rightarrow> bool" where
  "record_ok r =
     (case r of
        PDict d \<Rightarrow> map_of d ''category'' = None \<and>
                   (case map_of d ''actions'' of Some (PList acts) \<Rightarrow> list_all action_ok acts | _ \<Rightarrow> False)
      | _ \<Rightarrow> False)"

section \<open>Lines and states of the parser\<close>

text \<open>The kind of a line of the file, by the tests of the loop of \<^verbatim>\<open>parse_file\<close>.\<close>

datatype line_kind = Blank | Attribute | Element | Category

definition kind_of :: "string \<Rightarrow> line_kind" where
  "kind_of line0 =
     (let line = rstrip line0 in
      if line = [] then Blank
      else if prefix [CHR 0x09, CHR 0x09] line then Attribute
      else if prefix [CHR 0x09] line then Element
      else Category)"

text \<open>
  The window at address \<open>a\<close> has no element; and the invariant of the store: every
  category holds a \<^verbatim>\<open>controls\<close> list of dictionaries, and the windows are addresses
  of the store.
\<close>

definition empty_window :: "nat \<Rightarrow> parser \<Rightarrow> bool" where
  "empty_window a st =
     (a < length (store st) \<and> a \<in> set (windows st) \<and> get_controls (store st ! a) = Inr [])"

definition is_dict :: "pyval \<Rightarrow> bool" where
  "is_dict v = (case v of PDict d \<Rightarrow> True | _ \<Rightarrow> False)"

definition obj_ok :: "pyval \<Rightarrow> bool" where
  "obj_ok v = (case get_controls v of Inr cs \<Rightarrow> list_all is_dict cs | Inl e \<Rightarrow> False)"

definition store_ok :: "parser \<Rightarrow> bool" where
  "store_ok st =
     (list_all obj_ok (store st) \<and> list_all (\<lambda>a. a < length (store st)) (windows st))"

section \<open>Roles of the menu entries\<close>

text \<open>
  Names for the statements about a menu bar. An entry carries the category \<open>c\<close> when
  its \<^verbatim>\<open>category\<close> field equals \<open>c\<close> as a key; it is a menu named \<open>c\<close> when it has
  no \<^verbatim>\<open>category\<close> field and its \<^verbatim>\<open>name\<close> equals \<open>c\<close> as a key. \<open>action_of\<close> is what
  the loop appends for an entry with a category, and \<open>entry_key\<close> the key of
  \<^verbatim>\<open>categories\<close> that an entry refers to.
\<close>

definition in_category :: "pyval \<Rightarrow> pyval \<Rightarrow> bool" where
  "in_category c e =
     (case e of
        PDict m \<Rightarrow> (case map_of m ''category'' of Some cn \<Rightarrow> key_of cn = key_of c | None \<Rightarrow> False)
      | _ \<Rightarrow> False)"

definition is_menu_named :: "pyval \<Rightarrow> pyval \<Rightarrow> bool" where
  "is_menu_named c e =
     (case e of
        PDict m \<Rightarrow> map_of m ''category'' = None \<and>
                   (case map_of m ''name'' of Some n \<Rightarrow> key_of n = key_of c | None \<Rightarrow> False)
      | _ \<Rightarrow> False)"

definition action_of :: "pyval \<Rightarrow> pyval" where
  "action_of e = (case e of PDict m \<Rightarrow> as_action (AList.delete ''category'' m) | _ \<Rightarrow> e)"

definition entry_key :: "pyval \<Rightarrow> pyval" where
  "entry_key e =
     (case e of
        PDict m \<Rightarrow> (case map_of m ''category'' of
                      Some cn \<Rightarrow> key_of cn
                    | None \<Rightarrow> (case map_of m ''name'' of Some n \<Rightarrow> key_of n | None \<Rightarrow> PNone))
      | _ \<Rightarrow> PNone)"

section \<open>Inputs of the scenarios\<close>

text \<open>The text of the first end-to-end scenario: a window, its element, one attribute.\<close>

definition window_main_text :: string where
  "window_main_text =
     ''window '' @ [CHR 0x22] @ ''main'' @ [CHR 0x22, CHR 0x0A] @
     [CHR 0x09] @ ''MAIN'' @ [CHR 0x0A] @
     [CHR 0x09, CHR 0x09] @ ''is_pane = '' @ [CHR 0x22] @ ''true'' @ [CHR 0x22, CHR 0x0A]"

text \<open>Menu entries as the parser builds them: a menu, and an action of a category.\<close>

definition menu_entry :: "string \<Rightarrow> pyval" where
  "menu_entry n = PDict [(''type'', PStr ''elem''), (''name'', PStr n)]"

definition action_entry :: "string \<Rightarrow> string \<Rightarrow> pyval" where
  "action_entry n c = PDict [(''type'', PStr ''elem''), (''name'', PStr n), (''category'', PStr c)]"

definition menubar_of :: "pyval list \<Rightarrow> (string \<times> pyval) list" where
  "menubar_of entries = [(''type'', PStr ''menu''), (''controls'', PList entries)]"

section \<open>Facts about the string primitives\<close>

lemma split_ws_word:
  "\<forall>c\<in>set k. \<not> is_space c \<Longrightarrow> split_ws w (k @ r) = split_ws (rev k @ w) r"
  by (induction k arbitrary: w) auto

lemma py_split_two:
  assumes "k \<noteq> []" "v \<noteq> []" "\<forall>c\<in>set (k @ v). \<not> is_space c"
  shows "py_split (k @ '' '' @ v) = [k, v]"
proof -
  have k: "\<forall>c\<in>set k. \<not> is_space c" and v: "\<forall>c\<in>set v. \<not> is_space c"
    using assms(3) by auto
  have "split_ws [] (k @ (CHR '' '' # v)) = split_ws (rev k @ []) (CHR '' '' # v)"
    using k by (rule split_ws_word)
  also have "\<dots> = k # split_ws [] v"
    using assms(1) by (simp add: is_space_def)
  also have "split_ws [] v = split_ws [] (v @ [])" by simp
  also have "\<dots> = split_ws (rev v @ []) []"
    using v by (rule split_ws_word)
  finally show ?thesis using assms(2) by (simp add: py_split_def)
qed

lemma split_on_none:
  "\<not> occurs sep s \<Longrightarrow> split_on sep w s = [rev w @ s]"
  by (induction s arbitrary: w) auto

lemma prefix_shorter:
  "length sep \<le> length a \<Longrightarrow> prefix sep (a @ b) = prefix sep a"
  by (metis append_eq_append_conv_if prefix_def append.assoc append_take_drop_id prefixI)

lemma split_on_first:
  assumes "sep \<noteq> []" "\<not> occurs sep (k @ butlast sep)"
  shows "split_on sep w (k @ sep @ v) = (rev w @ k) # split_on sep [] v"
  using assms(2)
proof (induction k arbitrary: w)
  case Nil
  then show ?case using assms(1) by (cases sep) auto
next
  case (Cons c k)
  have "\<not> prefix sep ((c # k) @ butlast sep)" using Cons.prems by simp
  moreover have "(c # k) @ sep @ v = ((c # k) @ butlast sep) @ (last sep # v)"
    using assms(1) by simp
  moreover have "length sep \<le> length ((c # k) @ butlast sep)" by simp
  ultimately have "\<not> prefix sep ((c # k) @ sep @ v)"
    using prefix_shorter by metis
  moreover have "\<not> occurs sep (k @ butlast sep)" using Cons.prems by simp
  ultimately show ?case using Cons.IH by simp
qed

section \<open>The line splitters\<close>

text \<open>
  Claim C8, as amended. For a string \<open>k = v\<close> in which the separator \<^verbatim>\<open>' = '\<close> occurs
  at that one place only (it does not begin inside \<open>k\<close>, and does not occur in \<open>v\<close>),
  \<^verbatim>\<open>_parse_key_eq_sign_value\<close> returns \<open>(k, v)\<close> with the double quotes stripped from
  both ends of \<open>v\<close>; for a string without the separator it raises \<^verbatim>\<open>ValueError\<close>.
\<close>

theorem parse_key_eq_sign_value_one_separator:
  "(\<not> occurs '' = '' (k @ '' ='') \<and> \<not> occurs '' = '' v \<longrightarrow>
      parse_key_eq_sign_value (k @ '' = '' @ v) = Inr (k, strip_chars [CHR 0x22] v))
   \<and> (\<not> occurs '' = '' s \<longrightarrow> parse_key_eq_sign_value s = Inl ValueError)"
proof (intro conjI impI)
  assume a: "\<not> occurs '' = '' (k @ '' ='') \<and> \<not> occurs '' = '' v"
  have "split_on '' = '' [] (k @ '' = '' @ v) = (rev [] @ k) # split_on '' = '' [] v"
    by (rule split_on_first) (use a in simp_all)
  then show "parse_key_eq_sign_value (k @ '' = '' @ v) = Inr (k, strip_chars [CHR 0x22] v)"
    using a by (simp add: parse_key_eq_sign_value_def py_split_sep_def split_on_none)
next
  assume "\<not> occurs '' = '' s"
  then show "parse_key_eq_sign_value s = Inl ValueError"
    by (simp add: parse_key_eq_sign_value_def py_split_sep_def split_on_none)
qed

text \<open>The docstring's example and the test's string without a separator.\<close>

theorem parse_key_eq_sign_value_one_separator_witness:
  "parse_key_eq_sign_value (''eyes'' @ '' = '' @ [CHR 0x22] @ ''blue'' @ [CHR 0x22]) = Inr (''eyes'', ''blue'')
   \<and> parse_key_eq_sign_value ''mouth'' = Inl ValueError"
  using parse_key_eq_sign_value_one_separator
          [of "''eyes''" "[CHR 0x22] @ ''blue'' @ [CHR 0x22]" "''mouth''"]
  by (simp add: strip_chars_def)

text \<open>
  Claim C8 as it is written fails: \<^verbatim>\<open>a = b = c\<close> is \<open>k = v\<close> with \<open>k\<close> the string
  \<^verbatim>\<open>a\<close> and \<open>v\<close> the string \<^verbatim>\<open>b = c\<close>, the split has three parts and the unpacking
  raises.
\<close>

theorem parse_key_eq_sign_value_two_separators:
  "parse_key_eq_sign_value (''a'' @ '' = '' @ ''b = c'') = Inl ValueError"
  by (simp add: parse_key_eq_sign_value_def py_split_sep_def)

text \<open>
  Claim C9, as amended. For a string \<open>k v\<close> in which \<open>k\<close> and \<open>v\<close> are not empty and
  hold no white space, \<^verbatim>\<open>_parse_key_value\<close> returns \<open>(k, v)\<close> with the double quotes
  stripped from both ends of \<open>v\<close>; for a string without a space it returns the string
  and \<^verbatim>\<open>None\<close>.
\<close>

theorem parse_key_value_two_words:
  "(k \<noteq> [] \<and> v \<noteq> [] \<and> (\<forall>c\<in>set (k @ v). \<not> is_space c) \<longrightarrow>
      parse_key_value (k @ '' '' @ v) = Inr (k, Some (strip_chars [CHR 0x22] v)))
   \<and> (CHR '' '' \<notin> set s \<longrightarrow> parse_key_value s = Inr (s, None))"
proof (intro conjI impI)
  assume a: "k \<noteq> [] \<and> v \<noteq> [] \<and> (\<forall>c\<in>set (k @ v). \<not> is_space c)"
  then have "py_split (k @ '' '' @ v) = [k, v]" by (intro py_split_two) simp_all
  then show "parse_key_value (k @ '' '' @ v) = Inr (k, Some (strip_chars [CHR 0x22] v))"
    by (simp add: parse_key_value_def)
next
  assume "CHR '' '' \<notin> set s"
  then show "parse_key_value s = Inr (s, None)" by (simp add: parse_key_value_def)
qed

text \<open>The two examples of the docstring.\<close>

theorem parse_key_value_two_words_witness:
  "parse_key_value (''eyes'' @ '' '' @ [CHR 0x22] @ ''blue'' @ [CHR 0x22]) = Inr (''eyes'', Some ''blue'')
   \<and> parse_key_value ''mouth'' = Inr (''mouth'', None)"
  using parse_key_value_two_words [of "''eyes''" "[CHR 0x22] @ ''blue'' @ [CHR 0x22]" "''mouth''"]
  by (simp add: is_space_def strip_chars_def)

text \<open>
  Claim C9 as it is written fails: with a tab in \<open>k\<close> the string holds exactly one
  space, \<^verbatim>\<open>split()\<close> cuts at the tab as well, and the unpacking of three parts raises.
\<close>

theorem parse_key_value_tab_in_key:
  "length (filter (\<lambda>c. c = CHR '' '') (''a'' @ [CHR 0x09] @ ''b'' @ '' '' @ ''c'')) = 1
   \<and> parse_key_value (''a'' @ [CHR 0x09] @ ''b'' @ '' '' @ ''c'') = Inl ValueError"
  by (simp add: parse_key_value_def py_split_def is_space_def)

section \<open>Header lines\<close>

lemma bind_Inl: "bind m f = Inl e \<longleftrightarrow> m = Inl e \<or> (\<exists>x. m = Inr x \<and> f x = Inl e)"
  by (cases m) (simp_all add: bind_def)

lemma bind_Inr: "bind m f = Inr y \<longleftrightarrow> (\<exists>x. m = Inr x \<and> f x = Inr y)"
  by (cases m) (simp_all add: bind_def)

lemma parse_key_value_error:
  "parse_key_value s = Inl e \<longleftrightarrow> e = ValueError \<and> CHR '' '' \<in> set s \<and> length (py_split s) \<noteq> 2"
proof (cases "CHR '' '' \<in> set s")
  case False
  then show ?thesis by (simp add: parse_key_value_def)
next
  case True
  show ?thesis
  proof (cases "py_split s")
    case Nil
    then show ?thesis using True by (auto simp add: parse_key_value_def)
  next
    case (Cons a as)
    note c1 = Cons
    show ?thesis
    proof (cases as)
      case Nil
      then show ?thesis using True c1 by (auto simp add: parse_key_value_def)
    next
      case (Cons b bs)
      then show ?thesis using True c1 by (cases bs) (auto simp add: parse_key_value_def)
    qed
  qed
qed

lemma get_controls_error: "get_controls obj = Inl e \<Longrightarrow> e \<noteq> ValueError"
  by (auto simp: get_controls_def split: pyval.splits option.splits)

lemma parse_category_error:
  "parse_category line st = Inl e \<longleftrightarrow> parse_key_value line = Inl e"
  by (cases "parse_key_value line") (auto simp: parse_category_def bind_def Let_def)

lemma parse_element_ValueError:
  "parse_element line st = Inl ValueError \<longleftrightarrow> parse_key_value (lstrip line) = Inl ValueError"
proof (cases "parse_key_value (lstrip line)")
  case (Inl e)
  then show ?thesis by (simp add: parse_element_def bind_def)
next
  case (Inr kv)
  obtain t i where kv: "kv = (t, i)" by (cases kv)
  show ?thesis
  proof (cases "category st")
    case None
    then show ?thesis using Inr kv by (simp add: parse_element_def bind_def)
  next
    case (Some a)
    then show ?thesis using Inr kv get_controls_error[of "store st ! a"]
      by (cases "get_controls (store st ! a)") (auto simp add: parse_element_def bind_def)
  qed
qed

text \<open>
  Claim C3, as amended. A category or element header line raises \<^verbatim>\<open>ValueError\<close>
  exactly when it holds a space and \<^verbatim>\<open>split()\<close> does not cut it into exactly two
  words (for an element line, after \<^verbatim>\<open>lstrip\<close>): three or more words, or a single
  word beside the space. More than one space between two words is accepted.
\<close>

theorem header_line_error:
  "(parse_category line st = Inl ValueError \<longleftrightarrow> CHR '' '' \<in> set line \<and> length (py_split line) \<noteq> 2)
   \<and> (parse_element line st = Inl ValueError \<longleftrightarrow>
        CHR '' '' \<in> set (lstrip line) \<and> length (py_split (lstrip line)) \<noteq> 2)"
  by (simp add: parse_category_error parse_element_ValueError parse_key_value_error)

text \<open>Three words on a category line and on an element line.\<close>

theorem header_line_error_witness:
  "parse_category ''window main x'' init = Inl ValueError
   \<and> parse_element ''elem main x'' init = Inl ValueError"
  using header_line_error [of "''window main x''" init] header_line_error [of "''elem main x''" init]
  by (simp add: py_split_def is_space_def lstrip_def)

text \<open>
  Claim C3 as it is written fails: a category line with two spaces between its two
  words is parsed.
\<close>

theorem header_line_two_spaces:
  "length (filter (\<lambda>c. c = CHR '' '') ''window  main'') = 2 \<and>
   parse_category ''window  main'' init =
     Inr \<lparr>store = [PDict [(''type'', PStr ''window''), (''id'', PStr ''main''), (''controls'', PList [])]],
          macrolists = [], menubars = [], windows = [0], category = Some 0, element = None\<rparr>"
  by (simp add: parse_category_def parse_key_value_def py_split_def is_space_def bind_def
      header_dict_def strip_chars_def init_def)

section \<open>Attribute lines\<close>

lemma get_controls_with_controls:
  "get_controls obj = Inr cs \<Longrightarrow> get_controls (with_controls cs' obj) = Inr cs'"
  by (auto simp: get_controls_def with_controls_def update_conv' split: pyval.splits option.splits)

lemma set_element_stores:
  assumes "element st = Some (a, i)" "a < length (store st)"
    "get_controls (store st ! a) = Inr cs" "i < length cs" "cs ! i = PDict e"
  shows "\<exists>st' cs' e'. set_element k v st = Inr st' \<and> get_controls (store st' ! a) = Inr cs'
           \<and> cs' ! i = PDict e' \<and> map_of e' k = Some v"
  using assms
  by (simp add: set_element_def bind_def set_item_def get_controls_with_controls update_conv')

lemma coerce_keyword:
  "v \<in> {''true'', ''false'', ''none''} \<Longrightarrow>
   coerce name v = Inr (if v = ''true'' then PBool True else if v = ''false'' then PBool False else PNone)"
  by (auto simp: coerce_def DEFAULT_VALUES_MAP_def)

text \<open>
  Claim C2. An attribute line whose value, after the quotes are stripped, is
  \<^verbatim>\<open>true\<close>, \<^verbatim>\<open>false\<close> or \<^verbatim>\<open>none\<close> stores \<^verbatim>\<open>True\<close>, \<^verbatim>\<open>False\<close> or \<^verbatim>\<open>None\<close>
  in the current element under the field's name, whatever the name is, the names of
  the delimiter map included: the keywords are tested first.
\<close>

theorem keyword_first:
  assumes "parse_key_eq_sign_value (lstrip line) = Inr (name, v)"
    and "v \<in> {''true'', ''false'', ''none''}"
    and "element st = Some (a, i)" "a < length (store st)"
    and "get_controls (store st ! a) = Inr cs" "i < length cs" "cs ! i = PDict e"
  shows "\<exists>st' cs' e'. parse_attribute line st = Inr st' \<and> get_controls (store st' ! a) = Inr cs'
           \<and> cs' ! i = PDict e'
           \<and> map_of e' (replace_hyphen name) =
                Some (if v = ''true'' then PBool True else if v = ''false'' then PBool False else PNone)"
proof -
  let ?d = "if v = ''true'' then PBool True else if v = ''false'' then PBool False else PNone"
  have v': "strip_chars [CHR 0x0A, CHR 0x22] (replace_hyphen v) = v"
    using assms(2) by (auto simp: strip_chars_def replace_hyphen_def)
  have c: "coerce (replace_hyphen name) v = Inr ?d"
    using assms(2) by (rule coerce_keyword)
  have d: "?d \<noteq> PStr ''MAIN''" by simp
  have "parse_attribute line st = set_element (replace_hyphen name) ?d st"
    using assms(1) v' c d by (auto simp add: parse_attribute_def bind_def Let_def)
  then show ?thesis
    using set_element_stores[OF assms(3-7), of "replace_hyphen name" ?d] by simp
qed

text \<open>The field \<^verbatim>\<open>pos\<close>, which is in the delimiter map, with the value \<^verbatim>\<open>"true"\<close>.\<close>

theorem keyword_first_witness:
  "\<exists>st' cs' e'. parse_attribute ([CHR 0x09, CHR 0x09] @ ''pos = '' @ [CHR 0x22] @ ''true'' @ [CHR 0x22])
      \<lparr>store = [PDict [(''type'', PStr ''window''), (''controls'', PList [PDict [(''type'', PStr ''MAIN'')]])]],
       macrolists = [], menubars = [], windows = [0], category = Some 0, element = Some (0, 0)\<rparr> = Inr st'
     \<and> get_controls (store st' ! 0) = Inr cs' \<and> cs' ! 0 = PDict e' \<and> map_of e' ''pos'' = Some (PBool True)"
  using keyword_first [of "[CHR 0x09, CHR 0x09] @ ''pos = '' @ [CHR 0x22] @ ''true'' @ [CHR 0x22]" "''pos''" "''true''"
     "\<lparr>store = [PDict [(''type'', PStr ''window''), (''controls'', PList [PDict [(''type'', PStr ''MAIN'')]])]],
       macrolists = [], menubars = [], windows = [0], category = Some 0, element = Some (0, 0)\<rparr>"
     0 0 "[PDict [(''type'', PStr ''MAIN'')]]" "[(''type'', PStr ''MAIN'')]"]
  by (simp add: parse_key_eq_sign_value_def py_split_sep_def lstrip_def is_space_def strip_chars_def
       get_controls_def replace_hyphen_def)

lemma py_int_error: "py_int s = Inl e \<Longrightarrow> e = ValueError"
  by (auto simp: py_int_def Let_def split: option.splits prod.splits)

lemma map_result_error:
  assumes "\<And>x e. f x = Inl e \<Longrightarrow> e = ValueError" "x \<in> set xs" "f x = Inl ValueError"
  shows "map_result f xs = Inl ValueError"
  using assms(2,3)
proof (induction xs)
  case Nil
  then show ?case by simp
next
  case (Cons y ys)
  show ?case
  proof (cases "f y")
    case (Inl e)
    then show ?thesis using assms(1)[of y e] by (simp add: bind_def)
  next
    case (Inr b)
    then have "x \<in> set ys" using Cons.prems by auto
    then have "map_result f ys = Inl ValueError" using Cons by simp
    then show ?thesis using Inr by (simp add: bind_def)
  qed
qed

lemma py_int_underscore: "py_int (CHR ''_'' # r) = Inl ValueError"
proof -
  have a: "dropWhile int_space (CHR ''_'' # r) = CHR ''_'' # r" by (simp add: int_space_def)
  have "dropWhile int_space (rev r @ [CHR ''_'']) = dropWhile int_space (rev r) @ [CHR ''_'']"
    by (induction "rev r" arbitrary: r) (auto simp: int_space_def dropWhile_append)
  then have b: "rev (dropWhile int_space (rev (CHR ''_'' # r))) = CHR ''_'' # rev (dropWhile int_space (rev r))"
    by simp
  show ?thesis unfolding py_int_def a b by (simp add: is_decimal_def)
qed

lemma split_on_char_later:
  "c \<in> set (split_on [d] [] r) \<Longrightarrow> c \<in> set (split_on [d] w (p @ d # r))"
  by (induction p arbitrary: w) auto

lemma split_on_char_head:
  assumes "d \<notin> set c" "q = [] \<or> hd q = d"
  shows "c \<in> set (split_on [d] [] (c @ q))"
proof (cases q)
  case Nil
  have "\<not> occurs [d] c" using assms(1) by (induction c) auto
  then show ?thesis using Nil by (simp add: split_on_none)
next
  case (Cons x q')
  then have x: "x = d" using assms(2) by simp
  have "\<not> occurs [d] (c @ butlast [d])" using assms(1) by (induction c) auto
  then have "split_on [d] [] (c @ [d] @ q') = (rev [] @ c) # split_on [d] [] q'"
    by (intro split_on_first) simp_all
  then show ?thesis using Cons x by simp
qed

lemma split_on_char_component:
  assumes "d \<notin> set c" "p = [] \<or> last p = d" "q = [] \<or> hd q = d"
  shows "c \<in> set (split_on [d] [] (p @ c @ q))"
proof (cases p rule: rev_cases)
  case Nil
  then show ?thesis using split_on_char_head[OF assms(1,3)] by simp
next
  case (snoc p' x)
  then have "x = d" using assms(2) by simp
  then show ?thesis
    using snoc split_on_char_later[OF split_on_char_head[OF assms(1,3)], of "[]" p'] by simp
qed

lemma lstrip_boundary:
  assumes "\<not> P d" "\<not> P x" "p = [] \<or> last p = d"
  shows "\<exists>p'. dropWhile P (p @ x # r) = p' @ x # r \<and> (p' = [] \<or> last p' = d)"
proof (cases p rule: rev_cases)
  case Nil
  then show ?thesis using assms(2) by simp
next
  case (snoc p0 y)
  then have y: "y = d" using assms(3) by simp
  have "dropWhile P (p0 @ [d]) = dropWhile P p0 @ [d]"
    using assms(1) by (induction p0) auto
  then have "dropWhile P (p @ x # r) = (dropWhile P p0 @ [d]) @ x # r"
    using snoc y assms(1) by (simp add: dropWhile_append)
  then show ?thesis by (intro exI[of _ "dropWhile P p0 @ [d]"]) simp
qed

lemma strip_chars_component:
  assumes "d \<notin> set cs" "x \<notin> set cs" "y \<notin> set cs"
    "p = [] \<or> last p = d" "q = [] \<or> hd q = d"
  shows "\<exists>p' q'. strip_chars cs (p @ x # m @ y # q) = p' @ x # m @ y # q'
           \<and> (p' = [] \<or> last p' = d) \<and> (q' = [] \<or> hd q' = d)"
proof -
  let ?P = "\<lambda>c. c \<in> set cs"
  obtain p' where p': "dropWhile ?P (p @ x # (m @ y # q)) = p' @ x # (m @ y # q)" "p' = [] \<or> last p' = d"
    using lstrip_boundary[of ?P d x p "m @ y # q"] assms by auto
  have rq: "rev q = [] \<or> last (rev q) = d" using assms(5) by (cases q) auto
  obtain q' where q': "dropWhile ?P (rev q @ y # (rev m @ x # rev p')) = q' @ y # (rev m @ x # rev p')"
      "q' = [] \<or> last q' = d"
    using lstrip_boundary[of ?P d y "rev q" "rev m @ x # rev p'"] assms rq by auto
  have "strip_chars cs (p @ x # m @ y # q) = p' @ x # m @ y # rev q'"
    using p'(1) q'(1) by (simp add: strip_chars_def)
  moreover have "rev q' = [] \<or> hd (rev q') = d" using q'(2) by (cases q' rule: rev_cases) auto
  ultimately show ?thesis using p'(2) by blast
qed

lemma replace_hyphen_digits: "\<forall>c\<in>set ds. is_decimal c \<Longrightarrow> replace_hyphen ds = ds"
  by (induction ds) (auto simp: replace_hyphen_def is_decimal_def)

lemma delimiter_cases: "DELIMITER_MAP n = Some d \<Longrightarrow> d = '','' \<or> d = ''x''"
  by (auto simp: DELIMITER_MAP_def split: if_splits)

lemma keyword_no_underscore: "DEFAULT_VALUES_MAP v = Some d \<Longrightarrow> CHR ''_'' \<notin> set v"
  by (auto simp: DEFAULT_VALUES_MAP_def split: if_splits)

text \<open>
  Claim C10. For a field of the delimiter map, a value with a component that is a
  hyphen followed by digits (a negative integer between delimiters or the ends of the
  value) raises \<^verbatim>\<open>ValueError\<close>: the hyphen has become an underscore, and \<^verbatim>\<open>int\<close>
  rejects a leading underscore.
\<close>

theorem negative_component_error:
  assumes "parse_key_eq_sign_value (lstrip line) = Inr (name, v)"
    and "DELIMITER_MAP (replace_hyphen name) = Some delimiter"
    and "v = p @ CHR ''-'' # ds @ q"
    and "ds \<noteq> []" "\<forall>c\<in>set ds. is_decimal c"
    and "p = [] \<or> suffix delimiter p" "q = [] \<or> prefix delimiter q"
  shows "parse_attribute line st = Inl ValueError"
proof -
  obtain d where d: "delimiter = [d]" "d = CHR '','' \<or> d = CHR ''x''"
    using delimiter_cases[OF assms(2)] by auto
  obtain ds0 y where ds: "ds = ds0 @ [y]" using assms(4) by (cases ds rule: rev_cases) auto
  have y: "is_decimal y" and ds0: "\<forall>c\<in>set ds0. is_decimal c" using assms(5) ds by auto
  have rd: "replace_hyphen ds = ds" using assms(5) by (rule replace_hyphen_digits)
  let ?p = "replace_hyphen p" and ?q = "replace_hyphen q"
  have rv: "replace_hyphen v = ?p @ CHR ''_'' # ds0 @ y # ?q"
    using assms(3) rd ds by (simp add: replace_hyphen_def)
  have pb: "?p = [] \<or> last ?p = d"
    using assms(6) d by (cases p rule: rev_cases) (auto simp: replace_hyphen_def suffix_def)
  have qb: "?q = [] \<or> hd ?q = d"
    using assms(7) d by (cases q) (auto simp: replace_hyphen_def)
  have "d \<notin> set [CHR 0x0A, CHR 0x22]" "CHR ''_'' \<notin> set [CHR 0x0A, CHR 0x22]"
    "y \<notin> set [CHR 0x0A, CHR 0x22]"
    using d y by (auto simp: is_decimal_def)
  from strip_chars_component[OF this pb qb, of ds0]
  obtain p' q' where s: "strip_chars [CHR 0x0A, CHR 0x22] (replace_hyphen v) = p' @ (CHR ''_'' # ds) @ q'"
      "p' = [] \<or> last p' = d" "q' = [] \<or> hd q' = d"
    using rv ds by auto
  let ?v = "strip_chars [CHR 0x0A, CHR 0x22] (replace_hyphen v)"
  have "\<not> is_decimal d" using d(2) by (auto simp: is_decimal_def)
  then have "d \<notin> set ds" using assms(5) by blast
  moreover have "d \<noteq> CHR ''_''" using d(2) by auto
  ultimately have "d \<notin> set (CHR ''_'' # ds)" by simp
  then have mem: "CHR ''_'' # ds \<in> set (split_on [d] [] ?v)"
    unfolding s(1) using s(2,3) by (rule split_on_char_component)
  have "map_result py_int (split_on [d] [] ?v) = Inl ValueError"
    by (rule map_result_error[where f = py_int, OF py_int_error mem py_int_underscore])
  then have "to_ints ?v delimiter = Inl ValueError"
    by (simp add: to_ints_def py_split_sep_def d(1))
  moreover have "DEFAULT_VALUES_MAP ?v = None"
    using keyword_no_underscore[of ?v] s(1) by (cases "DEFAULT_VALUES_MAP ?v") auto
  ultimately have "coerce (replace_hyphen name) ?v = Inl ValueError"
    using assms(2) by (simp add: coerce_def bind_def)
  then show ?thesis using assms(1) by (simp add: parse_attribute_def bind_def Let_def)
qed

text \<open>The line \<^verbatim>\<open>pos = -3,4\<close>.\<close>

theorem negative_component_error_witness:
  "parse_key_eq_sign_value (lstrip ([CHR 0x09, CHR 0x09] @ ''pos = -3,4'')) = Inr (''pos'', ''-3,4'')
   \<and> DELIMITER_MAP (replace_hyphen ''pos'') = Some '',''
   \<and> parse_attribute ([CHR 0x09, CHR 0x09] @ ''pos = -3,4'') init = Inl ValueError"
proof -
  have 1: "parse_key_eq_sign_value (lstrip ([CHR 0x09, CHR 0x09] @ ''pos = -3,4'')) = Inr (''pos'', ''-3,4'')"
    by (simp add: parse_key_eq_sign_value_def py_split_sep_def lstrip_def is_space_def strip_chars_def)
  have 2: "DELIMITER_MAP (replace_hyphen ''pos'') = Some '',''"
    by (simp add: replace_hyphen_def DELIMITER_MAP_def)
  have 3: "''-3,4'' = [] @ CHR ''-'' # ''3'' @ '',4''" by simp
  have 4: "''3'' \<noteq> []" "\<forall>c\<in>set ''3''. is_decimal c" by (simp_all add: is_decimal_def)
  have 5: "[] = [] \<or> suffix '','' []" "'',4'' = [] \<or> prefix '','' '',4''" by simp_all
  show ?thesis using 1 2 negative_component_error [OF 1 2 3 4 5, of init] by simp
qed

section \<open>The first scenario\<close>

lemma parse_window_main:
  "parse order window_main_text =
     Inr ([], [], [PDict [(''type'', PStr ''PANE''), (''controls'', PList [])]])"
proof -
  have "parse_file window_main_text init =
     Inr \<lparr>store = [PDict [(''type'', PStr ''window''), (''id'', PStr ''main''),
                        (''controls'', PList [PDict [(''type'', PStr ''PANE'')]])]],
          macrolists = [], menubars = [], windows = [0], category = Some 0, element = Some (0, 0)\<rparr>"
    by code_simp
  then show ?thesis
    by (simp add: parse_def post_process_def post_window_def get_controls_def set_item_def bind_def)
qed

text \<open>
  Claim C1, as amended. On the text of the scenario the pipeline produces exactly one
  window record, of type \<^verbatim>\<open>PANE\<close>, with an empty \<^verbatim>\<open>controls\<close> list and without an
  \<^verbatim>\<open>id\<close>: the record is the promoted element, which has none, and the identifier of
  the category is dropped with the category.
\<close>

theorem window_main_record:
  "\<exists>d. parse order window_main_text = Inr ([], [], [PDict d])
       \<and> map_of d ''type'' = Some (PStr ''PANE'')
       \<and> map_of d ''id'' = None
       \<and> map_of d ''controls'' = Some (PList [])
       \<and> map fst d = [''type'', ''controls'']"
  by (simp add: parse_window_main)

text \<open>Claim C1 as it is written fails: no output of that shape has the \<^verbatim>\<open>id\<close>.\<close>

theorem window_main_no_id:
  "\<not> (\<exists>order ms bs d. parse order window_main_text = Inr (ms, bs, [PDict d])
         \<and> map_of d ''type'' = Some (PStr ''PANE'')
         \<and> map_of d ''id'' = Some (PStr ''main'')
         \<and> map_of d ''controls'' = Some (PList []))"
  by (simp add: parse_window_main)

section \<open>The loop over the menu entries\<close>

lemma snd_set_update: "snd ` set (AList.update k v al) \<subseteq> insert v (snd ` set al)"
  by (induction al) auto

lemma map_of_snd: "map_of al k = Some v \<Longrightarrow> v \<in> snd ` set al"
  by (metis map_of_SomeD image_eqI snd_conv)

lemma record_okE:
  assumes "record_ok r"
  obtains d acts where "r = PDict d" "map_of d ''category'' = None"
    "map_of d ''actions'' = Some (PList acts)" "list_all action_ok acts"
proof -
  from assms obtain d where d: "r = PDict d"
    by (cases r) (simp_all add: record_ok_def)
  from assms d have c: "map_of d ''category'' = None"
    by (simp add: record_ok_def)
  from assms d obtain x where x: "map_of d ''actions'' = Some x"
    by (cases "map_of d ''actions''") (simp_all add: record_ok_def)
  from assms d x obtain acts where a: "x = PList acts"
    by (cases x) (simp_all add: record_ok_def)
  from assms d x a have "list_all action_ok acts"
    by (simp add: record_ok_def)
  then show ?thesis using that d c x a by simp
qed

lemma record_okI:
  "map_of d ''category'' = None \<Longrightarrow> map_of d ''actions'' = Some (PList acts) \<Longrightarrow>
   list_all action_ok acts \<Longrightarrow> record_ok (PDict d)"
  by (simp add: record_ok_def)

lemma new_category_ok: "record_ok (new_category c)"
  by (simp add: new_category_def record_ok_def)

lemma as_action_ok: "map_of m ''category'' = None \<Longrightarrow> action_ok (as_action m)"
  by (simp add: as_action_def action_ok_def update_conv' split: option.splits)

lemma append_action_Inr:
  assumes "append_action k a cs = Inr cs'"
  obtains d acts where "map_of cs k = Some (PDict d)" "map_of d ''actions'' = Some (PList acts)"
    "cs' = AList.update k (PDict (AList.update ''actions'' (PList (acts @ [a])) d)) cs"
proof -
  from assms obtain r where r: "map_of cs k = Some r"
    by (cases "map_of cs k") (simp_all add: append_action_def)
  from assms r obtain d where d: "r = PDict d"
    by (cases r) (simp_all add: append_action_def)
  from assms r d obtain x where x: "map_of d ''actions'' = Some x"
    by (cases "map_of d ''actions''") (simp_all add: append_action_def)
  from assms r d x obtain acts where acts: "x = PList acts"
    by (cases x) (simp_all add: append_action_def)
  from assms r d x acts
  have "cs' = AList.update k (PDict (AList.update ''actions'' (PList (acts @ [a])) d)) cs"
    by (simp add: append_action_def)
  then show ?thesis using that r d x acts by simp
qed

lemma all_snd_update:
  assumes "\<forall>r\<in>snd ` set al. P r" "P v"
  shows "\<forall>r\<in>snd ` set (AList.update k v al). P r"
proof
  fix r assume "r \<in> snd ` set (AList.update k v al)"
  then have "r \<in> insert v (snd ` set al)" using snd_set_update[of k v al] by (rule rev_subsetD)
  then show "P r" using assms by auto
qed

lemma append_action_ok:
  assumes "\<forall>r\<in>snd ` set cs. record_ok r" "action_ok a" "append_action k a cs = Inr cs'"
  shows "\<forall>r\<in>snd ` set cs'. record_ok r"
proof -
  from assms(3) obtain d acts where r: "map_of cs k = Some (PDict d)"
      "map_of d ''actions'' = Some (PList acts)"
      and cs': "cs' = AList.update k (PDict (AList.update ''actions'' (PList (acts @ [a])) d)) cs"
    by (rule append_action_Inr)
  have ok: "record_ok (PDict d)" using assms(1) map_of_snd[OF r(1)] by blast
  have c: "map_of d ''category'' = None" using ok by (simp add: record_ok_def)
  have l: "list_all action_ok acts" using ok r(2) by (simp add: record_ok_def)
  have "record_ok (PDict (AList.update ''actions'' (PList (acts @ [a])) d))"
    using c l assms(2) by (simp add: record_ok_def update_conv')
  then show ?thesis unfolding cs' by (rule all_snd_update[OF assms(1)])
qed

lemma as_menu_name: "map_of (as_menu m) ''name'' = map_of m ''name''"
  by (simp add: as_menu_def update_conv' delete_conv')

lemma as_menu_category: "map_of (as_menu m) ''category'' = map_of m ''category''"
  by (simp add: as_menu_def update_conv' delete_conv')

lemma as_menu_actions: "map_of (as_menu m) ''actions'' = Some (PList [])"
  by (simp add: as_menu_def update_conv' delete_conv')

lemma menu_step_top:
  "map_of m ''category'' = None \<Longrightarrow>
   menu_step (PDict m) (cs, gs) =
     (case map_of m ''name'' of
        None \<Rightarrow> Inl KeyError
      | Some n \<Rightarrow> if hashable n then Inr (AList.update (key_of n) (PDict (as_menu m)) cs, gs)
                  else Inl TypeError)"
  by (simp add: menu_step_def Let_def as_menu_name)

lemma menu_step_ref:
  "map_of m ''category'' = Some c \<Longrightarrow>
   menu_step (PDict m) (cs, gs) =
     (if \<not> hashable c then Inl TypeError
      else bind (collect_group (AList.delete ''category'' m) gs) (\<lambda>gs1.
           bind (append_action (key_of c) (as_action (AList.delete ''category'' m))
                   (if map_of cs (key_of c) = None
                    then AList.update (key_of c) (new_category c) cs else cs)) (\<lambda>cs2.
             Inr (cs2, gs1))))"
  by (simp add: menu_step_def Let_def)

lemma menu_step_ref_Inr:
  assumes "map_of m ''category'' = Some c" "menu_step (PDict m) (cs, gs) = Inr (cs', gs')"
  shows "hashable c"
    and "collect_group (AList.delete ''category'' m) gs = Inr gs'"
    and "append_action (key_of c) (as_action (AList.delete ''category'' m))
           (if map_of cs (key_of c) = None
            then AList.update (key_of c) (new_category c) cs else cs) = Inr cs'"
proof -
  define cs1 where "cs1 = (if map_of cs (key_of c) = None
            then AList.update (key_of c) (new_category c) cs else cs)"
  define m1 where "m1 = AList.delete ''category'' m"
  have eq: "menu_step (PDict m) (cs, gs) =
     (if \<not> hashable c then Inl TypeError
      else bind (collect_group m1 gs) (\<lambda>gs1.
           bind (append_action (key_of c) (as_action m1) cs1) (\<lambda>cs2. Inr (cs2, gs1))))"
    unfolding cs1_def m1_def by (rule menu_step_ref[OF assms(1)])
  show h: "hashable c" using assms(2) unfolding eq by (cases "hashable c") simp_all
  from assms(2) h obtain gs1 where g: "collect_group m1 gs = Inr gs1"
      and r: "bind (append_action (key_of c) (as_action m1) cs1) (\<lambda>cs2. Inr (cs2, gs1)) = Inr (cs', gs')"
    unfolding eq by (cases "collect_group m1 gs") (simp_all add: bind_def)
  from r have "append_action (key_of c) (as_action m1) cs1 = Inr cs'" and "gs1 = gs'"
    by (cases "append_action (key_of c) (as_action m1) cs1"; simp add: bind_def)+
  then show "collect_group (AList.delete ''category'' m) gs = Inr gs'"
    and "append_action (key_of c) (as_action (AList.delete ''category'' m))
           (if map_of cs (key_of c) = None
            then AList.update (key_of c) (new_category c) cs else cs) = Inr cs'"
    using g unfolding cs1_def m1_def by simp_all
qed

lemma menu_step_dict: "menu_step e cg = Inr r \<Longrightarrow> \<exists>m. e = PDict m"
  by (cases e; cases cg) (simp_all add: menu_step_def)

lemma menu_step_ok:
  assumes "\<forall>r\<in>snd ` set cs. record_ok r" "menu_step e (cs, gs) = Inr (cs', gs')"
  shows "\<forall>r\<in>snd ` set cs'. record_ok r"
proof -
  from menu_step_dict[OF assms(2)] obtain m where e: "e = PDict m" by blast
  show ?thesis
  proof (cases "map_of m ''category''")
    case None
    from assms(2) obtain n where cs': "cs' = AList.update (key_of n) (PDict (as_menu m)) cs"
      unfolding e menu_step_top[OF None]
      by (cases "map_of m ''name''") (auto split: if_splits)
    have "record_ok (PDict (as_menu m))"
      using None by (intro record_okI[where acts = "[]"]) (simp_all add: as_menu_category as_menu_actions)
    then show ?thesis unfolding cs' by (rule all_snd_update[OF assms(1)])
  next
    case (Some c)
    let ?m1 = "AList.delete ''category'' m"
    let ?cs1 = "if map_of cs (key_of c) = None then AList.update (key_of c) (new_category c) cs else cs"
    have app: "append_action (key_of c) (as_action ?m1) ?cs1 = Inr cs'"
      using menu_step_ref_Inr(3)[OF Some assms(2)[unfolded e]] .
    have "\<forall>r\<in>snd ` set (AList.update (key_of c) (new_category c) cs). record_ok r"
      by (rule all_snd_update[OF assms(1) new_category_ok])
    then have "\<forall>r\<in>snd ` set ?cs1. record_ok r"
      using assms(1) by (cases "map_of cs (key_of c) = None") simp_all
    moreover have "action_ok (as_action ?m1)" by (rule as_action_ok) (simp add: delete_conv')
    ultimately show ?thesis using app by (rule append_action_ok)
  qed
qed

lemma menu_loop_ok:
  "\<forall>r\<in>snd ` set cs. record_ok r \<Longrightarrow> menu_loop es (cs, gs) = Inr (cs', gs') \<Longrightarrow>
   \<forall>r\<in>snd ` set cs'. record_ok r"
proof (induction es arbitrary: cs gs)
  case Nil
  then show ?case by simp
next
  case (Cons e es)
  from Cons.prems(2) obtain cs1 gs1 where
    s: "menu_step e (cs, gs) = Inr (cs1, gs1)" "menu_loop es (cs1, gs1) = Inr (cs', gs')"
    by (cases "menu_step e (cs, gs)") (auto simp: bind_def)
  show ?case using Cons.IH[OF menu_step_ok[OF Cons.prems(1) s(1)] s(2)] .
qed

lemma map_result_Inr:
  "map_result f xs = Inr ys \<Longrightarrow> y \<in> set ys \<Longrightarrow> \<exists>x\<in>set xs. f x = Inr y"
proof (induction xs arbitrary: ys)
  case Nil
  then show ?case by simp
next
  case (Cons x xs)
  from Cons.prems(1) obtain z zs where z: "f x = Inr z" "map_result f xs = Inr zs" "ys = z # zs"
    by (cases "f x"; cases "map_result f xs") (auto simp: bind_def)
  then show ?case using Cons by auto
qed

lemma list_of_set_Nil: "list_of_set order [] = []"
  by (simp add: list_of_set_def)

lemma post_menubar_loop:
  "map_of mb ''controls'' = Some (PList es) \<Longrightarrow> menu_loop es ([], []) = Inr (cs, gs) \<Longrightarrow>
   post_menubar order (PDict mb) =
     Inr (PDict (AList.update ''groups'' (PList (list_of_set order gs))
                 (AList.update ''menus'' (PList (map snd cs))
                 (AList.update ''type'' (PStr ''MENUBAR'') (AList.delete ''controls'' mb)))))"
  by (simp add: post_menubar_def bind_def)

lemma post_menubar_ok:
  assumes "post_menubar order x = Inr b"
  shows "\<exists>d menus. b = PDict d \<and> map_of d ''menus'' = Some (PList menus) \<and> list_all record_ok menus"
proof -
  from assms obtain d0 where x: "x = PDict d0"
    by (cases x) (simp_all add: post_menubar_def)
  from assms x obtain v where v: "map_of d0 ''controls'' = Some v"
    by (cases "map_of d0 ''controls''") (simp_all add: post_menubar_def)
  from assms x v obtain es where es: "v = PList es"
    by (cases v) (simp_all add: post_menubar_def)
  from assms x v es obtain cs gs where l: "menu_loop es ([], []) = Inr (cs, gs)"
      and b: "b = PDict (AList.update ''groups'' (PList (list_of_set order gs))
                 (AList.update ''menus'' (PList (map snd cs))
                 (AList.update ''type'' (PStr ''MENUBAR'') (AList.delete ''controls'' d0))))"
    by (cases "menu_loop es ([], [])") (auto simp add: post_menubar_def bind_def)
  have "\<forall>r\<in>snd ` set cs. record_ok r" using menu_loop_ok[OF _ l] by simp
  then have "list_all record_ok (map snd cs)" by (simp add: list_all_iff)
  then show ?thesis unfolding b by (simp add: update_conv')
qed

text \<open>
  Claim C5. After \<^verbatim>\<open>post_process\<close>, every menu-bar record holds a \<^verbatim>\<open>menus\<close>
  list whose entries are records without a \<^verbatim>\<open>category\<close> field, each with an
  \<^verbatim>\<open>actions\<close> list whose entries are records without a \<^verbatim>\<open>category\<close> field.
\<close>

theorem no_category_left:
  assumes "post_process order st = Inr (ms, bs, ws)" "b \<in> set bs"
  shows "\<exists>d menus. b = PDict d \<and> map_of d ''menus'' = Some (PList menus) \<and>
           (\<forall>x\<in>set menus. \<exists>m acts. x = PDict m \<and> map_of m ''category'' = None \<and>
               map_of m ''actions'' = Some (PList acts) \<and>
               (\<forall>y\<in>set acts. \<exists>a. y = PDict a \<and> map_of a ''category'' = None))"
proof -
  from assms(1)
  have "map_result (post_menubar order) (map (\<lambda>a. store st ! a) (menubars st)) = Inr bs"
    by (auto simp: post_process_def bind_def split: sum.splits)
  from map_result_Inr[OF this assms(2)] obtain x where "post_menubar order x = Inr b" by blast
  from post_menubar_ok[OF this] obtain d menus where
    d: "b = PDict d" "map_of d ''menus'' = Some (PList menus)" "list_all record_ok menus" by blast
  have "\<exists>m acts. x = PDict m \<and> map_of m ''category'' = None \<and>
               map_of m ''actions'' = Some (PList acts) \<and>
               (\<forall>y\<in>set acts. \<exists>a. y = PDict a \<and> map_of a ''category'' = None)"
    if "x \<in> set menus" for x
  proof -
    have "record_ok x" using d(3) that by (simp add: list_all_iff)
    then obtain m acts where m: "x = PDict m" "map_of m ''category'' = None"
      "map_of m ''actions'' = Some (PList acts)" "list_all action_ok acts" by (rule record_okE)
    have "\<exists>a. y = PDict a \<and> map_of a ''category'' = None" if "y \<in> set acts" for y
      using m(4) that by (cases y) (auto simp: list_all_iff action_ok_def)
    then show ?thesis using m by blast
  qed
  then show ?thesis using d by blast
qed

text \<open>A menu bar with the menu \<^verbatim>\<open>File\<close> and an entry of that category.\<close>

theorem no_category_left_witness:
  "post_process (\<lambda>gs. gs) \<lparr>store = [PDict [(''type'', PStr ''menu''), (''controls'', PList
       [PDict [(''type'', PStr ''elem''), (''name'', PStr ''File'')],
        PDict [(''type'', PStr ''elem''), (''name'', PStr ''Open''), (''category'', PStr ''File'')]])]],
     macrolists = [], menubars = [0], windows = [], category = Some 0, element = Some (0, 1)\<rparr>
   = Inr ([],
          [PDict [(''type'', PStr ''MENUBAR''),
                  (''menus'', PList [PDict [(''type'', PStr ''MENU''), (''name'', PStr ''File''),
                     (''actions'', PList [PDict [(''type'', PStr ''ACTION''), (''name'', PStr ''Open'')]])]]),
                  (''groups'', PList [])]],
          [])
   \<and> (\<exists>d menus. PDict [(''type'', PStr ''MENUBAR''),
                  (''menus'', PList [PDict [(''type'', PStr ''MENU''), (''name'', PStr ''File''),
                     (''actions'', PList [PDict [(''type'', PStr ''ACTION''), (''name'', PStr ''Open'')]])]]),
                  (''groups'', PList [])] = PDict d \<and> map_of d ''menus'' = Some (PList menus) \<and>
           (\<forall>x\<in>set menus. \<exists>m acts. x = PDict m \<and> map_of m ''category'' = None \<and>
               map_of m ''actions'' = Some (PList acts) \<and>
               (\<forall>y\<in>set acts. \<exists>a. y = PDict a \<and> map_of a ''category'' = None)))"
proof -
  let ?st = "\<lparr>store = [PDict [(''type'', PStr ''menu''), (''controls'', PList
       [PDict [(''type'', PStr ''elem''), (''name'', PStr ''File'')],
        PDict [(''type'', PStr ''elem''), (''name'', PStr ''Open''), (''category'', PStr ''File'')]])]],
     macrolists = [], menubars = [0], windows = [], category = Some 0, element = Some (0, 1)\<rparr>"
  let ?b = "PDict [(''type'', PStr ''MENUBAR''),
                  (''menus'', PList [PDict [(''type'', PStr ''MENU''), (''name'', PStr ''File''),
                     (''actions'', PList [PDict [(''type'', PStr ''ACTION''), (''name'', PStr ''Open'')]])]]),
                  (''groups'', PList [])]"
  have h: "post_process (\<lambda>gs. gs) ?st = Inr ([], [?b], [])" by code_simp
  have "?b \<in> set [?b]" by simp
  from no_category_left [OF h this] h show ?thesis by (rule conjI[rotated])
qed

lemma menu_loop_append:
  "menu_loop (xs @ ys) cg = bind (menu_loop xs cg) (menu_loop ys)"
proof (induction xs arbitrary: cg)
  case Nil
  then show ?case by (simp add: bind_def)
next
  case (Cons x xs)
  then show ?case by (cases "menu_step x cg") (simp_all add: bind_def)
qed

lemma append_action_total:
  "map_of cs k = Some (PDict d) \<Longrightarrow> map_of d ''actions'' = Some (PList acts) \<Longrightarrow>
   append_action k a cs = Inr (AList.update k (PDict (AList.update ''actions'' (PList (acts @ [a])) d)) cs)"
  by (simp add: append_action_def)


section \<open>A window without elements\<close>

lemma parse_line_kind:
  "parse_line l st =
     (case kind_of l of
        Blank \<Rightarrow> Inr st
      | Attribute \<Rightarrow> parse_attribute (rstrip l) st
      | Element \<Rightarrow> parse_element (rstrip l) st
      | Category \<Rightarrow> parse_category (rstrip l) st)"
  by (simp add: parse_line_def kind_of_def Let_def)

lemma parse_category_Inr:
  assumes "parse_category l st = Inr st'"
  obtains t i where "parse_key_value l = Inr (t, i)"
    "store st' = store st @ [PDict (header_dict t i @ [(''controls'', PList [])])]"
    "category st' = Some (length (store st))"
    "windows st' = (if t = ''window'' then windows st @ [length (store st)] else windows st)"
proof -
  from assms obtain t i where p: "parse_key_value l = Inr (t, i)"
    by (cases "parse_key_value l") (auto simp: parse_category_def bind_def)
  from assms have "st' = (let a = length (store st);
           c = PDict (header_dict t i @ [(''controls'', PList [])]);
           st1 = st\<lparr>store := store st @ [c], category := Some a\<rparr>
       in (if t = ''macro'' then st1\<lparr>macrolists := macrolists st1 @ [a]\<rparr>
               else if t = ''menu'' then st1\<lparr>menubars := menubars st1 @ [a]\<rparr>
               else if t = ''window'' then st1\<lparr>windows := windows st1 @ [a]\<rparr>
               else st1))"
    by (simp add: parse_category_def bind_def p Let_def)
  then have "store st' = store st @ [PDict (header_dict t i @ [(''controls'', PList [])])]"
    "category st' = Some (length (store st))"
    "windows st' = (if t = ''window'' then windows st @ [length (store st)] else windows st)"
    by (simp_all add: Let_def)
  then show ?thesis using that p by blast
qed

lemma get_controls_header:
  "get_controls (PDict (header_dict t i @ [(''controls'', PList [])])) = Inr []"
  by (simp add: get_controls_def header_dict_def split: option.splits)

lemma parse_element_Inr:
  assumes "parse_element l st = Inr st'"
  obtains a cs e where "category st = Some a" "get_controls (store st ! a) = Inr cs" "is_dict e"
    "st' = st\<lparr>store := (store st)[a := with_controls (cs @ [e]) (store st ! a)],
              element := Some (a, length cs)\<rparr>"
proof -
  from assms obtain t i where p: "parse_key_value (lstrip l) = Inr (t, i)"
    by (cases "parse_key_value (lstrip l)") (auto simp: parse_element_def bind_def)
  from assms p obtain a where a: "category st = Some a"
    by (cases "category st") (simp_all add: parse_element_def bind_def)
  from assms p a obtain cs where cs: "get_controls (store st ! a) = Inr cs"
    by (cases "get_controls (store st ! a)") (simp_all add: parse_element_def bind_def)
  from assms p a cs
  have "st' = st\<lparr>store := (store st)[a := with_controls (cs @ [PDict (header_dict t i)]) (store st ! a)],
              element := Some (a, length cs)\<rparr>"
    by (simp add: parse_element_def bind_def)
  moreover have "is_dict (PDict (header_dict t i))" by (simp add: is_dict_def)
  ultimately show ?thesis using that a cs by blast
qed

lemma set_element_Inr:
  assumes "set_element k v st = Inr st'"
  obtains a i cs e where "element st = Some (a, i)" "get_controls (store st ! a) = Inr cs" "is_dict e"
    "st' = st\<lparr>store := (store st)[a := with_controls (cs[i := e]) (store st ! a)]\<rparr>"
proof -
  from assms obtain a i where a: "element st = Some (a, i)"
    by (cases "element st") (auto simp: set_element_def)
  from assms a obtain cs where cs: "get_controls (store st ! a) = Inr cs"
    by (cases "get_controls (store st ! a)") (simp_all add: set_element_def bind_def)
  from assms a cs obtain e where e: "set_item k v (cs ! i) = Inr e"
    by (cases "set_item k v (cs ! i)") (simp_all add: set_element_def bind_def)
  from e have "is_dict e" by (cases "cs ! i") (auto simp: set_item_def is_dict_def)
  moreover from assms a cs e
  have "st' = st\<lparr>store := (store st)[a := with_controls (cs[i := e]) (store st ! a)]\<rparr>"
    by (simp add: set_element_def bind_def)
  ultimately show ?thesis using that a cs by blast
qed

lemma parse_attribute_Inr:
  assumes "parse_attribute l st = Inr st'"
  obtains k v where "set_element k v st = Inr st'"
proof -
  from assms obtain n v0 where p: "parse_key_eq_sign_value (lstrip l) = Inr (n, v0)"
    by (cases "parse_key_eq_sign_value (lstrip l)") (auto simp: parse_attribute_def bind_def)
  from assms p obtain val where
    "coerce (replace_hyphen n) (strip_chars [CHR 0x0A, CHR 0x22] (replace_hyphen v0)) = Inr val"
    by (cases "coerce (replace_hyphen n) (strip_chars [CHR 0x0A, CHR 0x22] (replace_hyphen v0))")
       (simp_all add: parse_attribute_def bind_def Let_def)
  with assms p show ?thesis using that
    by (cases "replace_hyphen n = ''type''") (simp_all add: parse_attribute_def bind_def Let_def)
qed

lemma set_element_empty:
  assumes "empty_window w st" "set_element k v st = Inr st'"
  shows "empty_window w st' \<and> category st' = category st"
proof -
  from assms(2) obtain a i cs e where g: "get_controls (store st ! a) = Inr cs"
      and st': "st' = st\<lparr>store := (store st)[a := with_controls (cs[i := e]) (store st ! a)]\<rparr>"
    by (rule set_element_Inr)
  have w: "w < length (store st)" "w \<in> set (windows st)" "get_controls (store st ! w) = Inr []"
    using assms(1) by (simp_all add: empty_window_def)
  have "get_controls (store st' ! w) = Inr []"
  proof (cases "w = a")
    case True
    then have "cs = []" using g w(3) by simp
    then show ?thesis using True w(1) get_controls_with_controls[OF g, of "[]"] by (simp add: st')
  next
    case False
    then show ?thesis using w(3) by (simp add: st')
  qed
  then show ?thesis using w by (simp add: empty_window_def st')
qed

lemma parse_attribute_empty:
  assumes "empty_window w st" "parse_attribute l st = Inr st'"
  shows "empty_window w st' \<and> category st' = category st"
  using assms(2) set_element_empty[OF assms(1)] by (elim parse_attribute_Inr)

lemma parse_element_empty:
  assumes "empty_window w st" "category st \<noteq> Some w" "parse_element l st = Inr st'"
  shows "empty_window w st' \<and> category st' = category st"
proof -
  from assms(3) obtain a cs e where a: "category st = Some a"
      and st': "st' = st\<lparr>store := (store st)[a := with_controls (cs @ [e]) (store st ! a)],
              element := Some (a, length cs)\<rparr>"
    by (rule parse_element_Inr)
  have "a \<noteq> w" using a assms(2) by simp
  then show ?thesis using assms(1) by (simp add: empty_window_def st')
qed

lemma parse_category_empty:
  assumes "empty_window w st" "parse_category l st = Inr st'"
  shows "empty_window w st' \<and> category st' \<noteq> Some w"
proof -
  from assms(2) obtain t i where
    s: "store st' = store st @ [PDict (header_dict t i @ [(''controls'', PList [])])]"
    "category st' = Some (length (store st))"
    "windows st' = (if t = ''window'' then windows st @ [length (store st)] else windows st)"
    by (rule parse_category_Inr)
  have w: "w < length (store st)" "w \<in> set (windows st)" "get_controls (store st ! w) = Inr []"
    using assms(1) by (simp_all add: empty_window_def)
  show ?thesis using w s by (simp add: empty_window_def nth_append)
qed

lemma parse_category_window:
  assumes "parse_key_value l = Inr (''window'', i)" "parse_category l st = Inr st'"
  shows "empty_window (length (store st)) st' \<and> category st' = Some (length (store st))"
proof -
  from assms(2) obtain t j where p: "parse_key_value l = Inr (t, j)" and
    s: "store st' = store st @ [PDict (header_dict t j @ [(''controls'', PList [])])]"
    "category st' = Some (length (store st))"
    "windows st' = (if t = ''window'' then windows st @ [length (store st)] else windows st)"
    by (rule parse_category_Inr)
  have "t = ''window''" using p assms(1) by simp
  then show ?thesis using s by (simp add: empty_window_def get_controls_header)
qed

lemma parse_lines_append:
  "parse_lines (xs @ ys) st = bind (parse_lines xs st) (parse_lines ys)"
proof (induction xs arbitrary: st)
  case Nil
  then show ?case by (simp add: bind_def)
next
  case (Cons x xs)
  then show ?case by (cases "parse_line x st") (simp_all add: bind_def)
qed

lemma parse_line_other:
  assumes "empty_window w st" "category st \<noteq> Some w" "parse_line l st = Inr st'"
  shows "empty_window w st' \<and> category st' \<noteq> Some w"
proof (cases "kind_of l")
  case Blank
  then show ?thesis using assms by (simp add: parse_line_kind)
next
  case Attribute
  then show ?thesis using assms parse_attribute_empty[OF assms(1), of "rstrip l" st']
    by (simp add: parse_line_kind)
next
  case Element
  then show ?thesis using assms parse_element_empty[OF assms(1,2), of "rstrip l" st']
    by (simp add: parse_line_kind)
next
  case Category
  then show ?thesis using assms parse_category_empty[OF assms(1), of "rstrip l" st']
    by (simp add: parse_line_kind)
qed

lemma parse_lines_other:
  "empty_window w st \<Longrightarrow> category st \<noteq> Some w \<Longrightarrow> parse_lines ls st = Inr st' \<Longrightarrow>
   empty_window w st'"
proof (induction ls arbitrary: st)
  case Nil
  then show ?case by simp
next
  case (Cons l ls)
  from Cons.prems(3) obtain st1 where 1: "parse_line l st = Inr st1" "parse_lines ls st1 = Inr st'"
    by (cases "parse_line l st") (simp_all add: bind_def)
  from parse_line_other[OF Cons.prems(1,2) 1(1)] show ?case using Cons.IH 1(2) by blast
qed

lemma parse_lines_body:
  "empty_window w st \<Longrightarrow> \<forall>l\<in>set ls. kind_of l = Blank \<or> kind_of l = Attribute \<Longrightarrow>
   parse_lines ls st = Inr st' \<Longrightarrow> empty_window w st'"
proof (induction ls arbitrary: st)
  case Nil
  then show ?case by simp
next
  case (Cons l ls)
  from Cons.prems(3) obtain st1 where 1: "parse_line l st = Inr st1" "parse_lines ls st1 = Inr st'"
    by (cases "parse_line l st") (simp_all add: bind_def)
  have k: "kind_of l = Blank \<or> kind_of l = Attribute" using Cons.prems(2) by simp
  have "empty_window w st1"
    using k 1(1) Cons.prems(1) parse_attribute_empty[OF Cons.prems(1), of "rstrip l" st1]
    by (auto simp: parse_line_kind)
  then show ?case using Cons.IH Cons.prems(2) 1(2) by simp
qed

lemma mark_pane_store:
  assumes "mark_pane a st = Inr st'" "b \<noteq> a"
  shows "store st' ! b = store st ! b" "length (store st') = length (store st)"
proof -
  from assms(1) obtain cs where cs: "get_controls (store st ! a) = Inr cs"
    by (cases "get_controls (store st ! a)") (simp_all add: mark_pane_def bind_def)
  from assms(1) cs obtain e rest where c: "cs = e # rest"
    by (cases cs) (simp_all add: mark_pane_def bind_def)
  from assms(1) cs c obtain d where d: "e = PDict d"
    by (cases e) (simp_all add: mark_pane_def bind_def)
  from assms cs c d show "store st' ! b = store st ! b" "length (store st') = length (store st)"
    by (cases "map_of d ''is_pane''"; auto simp add: mark_pane_def bind_def Let_def)+
qed

lemma mark_pane_empty: "get_controls (store st ! a) = Inr [] \<Longrightarrow> mark_pane a st = Inl IndexError"
  by (simp add: mark_pane_def bind_def)

lemma mark_panes_empty:
  "w \<in> set ws \<Longrightarrow> get_controls (store st ! w) = Inr [] \<Longrightarrow> \<exists>e. mark_panes ws st = Inl e"
proof (induction ws arbitrary: st)
  case Nil
  then show ?case by simp
next
  case (Cons a ws)
  show ?case
  proof (cases "mark_pane a st")
    case (Inl e)
    then show ?thesis by (simp add: bind_def)
  next
    case (Inr st1)
    have "a \<noteq> w" using Inr mark_pane_empty[of st a] Cons.prems(2) by auto
    then have "w \<in> set ws" "get_controls (store st1 ! w) = Inr []"
      using Cons.prems mark_pane_store(1)[OF Inr, of w] by auto
    then show ?thesis using Cons.IH Inr by (simp add: bind_def)
  qed
qed

lemma list_all_update:
  assumes "list_all P xs" "i < length xs \<Longrightarrow> P x"
  shows "list_all P (xs[i := x])"
proof (cases "i < length xs")
  case True
  then have "P x" by (rule assms(2))
  then show ?thesis using assms(1) set_update_subset_insert[of xs i x]
    by (auto simp: list_all_iff)
next
  case False
  then have "xs[i := x] = xs" by (intro list_update_beyond) simp
  then show ?thesis using assms(1) by simp
qed

lemma obj_ok_with_controls:
  "get_controls v = Inr cs \<Longrightarrow> list_all is_dict cs' \<Longrightarrow> obj_ok (with_controls cs' v)"
  using get_controls_with_controls[of v cs cs'] by (simp add: obj_ok_def)

lemma obj_ok_nth:
  "list_all obj_ok s \<Longrightarrow> a < length s \<Longrightarrow> get_controls (s ! a) = Inr cs \<Longrightarrow> list_all is_dict cs"
  by (auto simp: list_all_length obj_ok_def split: sum.splits)

lemma store_ok_init: "store_ok init"
  by (simp add: store_ok_def init_def)

lemma parse_category_ok:
  assumes "store_ok st" "parse_category l st = Inr st'"
  shows "store_ok st'"
proof -
  from assms(2) obtain t i where
    s: "store st' = store st @ [PDict (header_dict t i @ [(''controls'', PList [])])]"
    "windows st' = (if t = ''window'' then windows st @ [length (store st)] else windows st)"
    by (rule parse_category_Inr)
  have "obj_ok (PDict (header_dict t i @ [(''controls'', PList [])]))"
    by (simp add: obj_ok_def get_controls_header)
  moreover have "list_all (\<lambda>a. a < Suc (length (store st))) (windows st)"
    using assms(1) by (auto simp: store_ok_def list_all_iff)
  ultimately show ?thesis using assms(1) s by (simp add: store_ok_def)
qed

lemma parse_element_ok:
  assumes "store_ok st" "parse_element l st = Inr st'"
  shows "store_ok st'"
proof -
  from assms(2) obtain a cs e where g: "get_controls (store st ! a) = Inr cs" and e: "is_dict e"
      and st': "st' = st\<lparr>store := (store st)[a := with_controls (cs @ [e]) (store st ! a)],
              element := Some (a, length cs)\<rparr>"
    by (rule parse_element_Inr)
  have ok: "list_all obj_ok (store st)" using assms(1) by (simp add: store_ok_def)
  have "list_all obj_ok ((store st)[a := with_controls (cs @ [e]) (store st ! a)])"
  proof (rule list_all_update[OF ok])
    assume "a < length (store st)"
    then have "list_all is_dict (cs @ [e])" using obj_ok_nth[OF ok _ g] e by simp
    then show "obj_ok (with_controls (cs @ [e]) (store st ! a))" by (rule obj_ok_with_controls[OF g])
  qed
  then show ?thesis using assms(1) by (simp add: store_ok_def st')
qed

lemma set_element_ok:
  assumes "store_ok st" "set_element k v st = Inr st'"
  shows "store_ok st'"
proof -
  from assms(2) obtain a i cs e where g: "get_controls (store st ! a) = Inr cs" and e: "is_dict e"
      and st': "st' = st\<lparr>store := (store st)[a := with_controls (cs[i := e]) (store st ! a)]\<rparr>"
    by (rule set_element_Inr)
  have ok: "list_all obj_ok (store st)" using assms(1) by (simp add: store_ok_def)
  have "list_all obj_ok ((store st)[a := with_controls (cs[i := e]) (store st ! a)])"
  proof (rule list_all_update[OF ok])
    assume "a < length (store st)"
    then have "list_all is_dict cs" by (rule obj_ok_nth[OF ok _ g])
    then have "list_all is_dict (cs[i := e])" using e by (rule list_all_update)
    then show "obj_ok (with_controls (cs[i := e]) (store st ! a))" by (rule obj_ok_with_controls[OF g])
  qed
  then show ?thesis using assms(1) by (simp add: store_ok_def st')
qed

lemma parse_line_ok:
  assumes "store_ok st" "parse_line l st = Inr st'"
  shows "store_ok st'"
proof (cases "kind_of l")
  case Blank
  then show ?thesis using assms by (simp add: parse_line_kind)
next
  case Attribute
  then have "parse_attribute (rstrip l) st = Inr st'" using assms(2) by (simp add: parse_line_kind)
  then show ?thesis using set_element_ok[OF assms(1)] by (elim parse_attribute_Inr)
next
  case Element
  then show ?thesis using assms parse_element_ok[of st "rstrip l" st'] by (simp add: parse_line_kind)
next
  case Category
  then show ?thesis using assms parse_category_ok[of st "rstrip l" st'] by (simp add: parse_line_kind)
qed

lemma parse_lines_ok:
  "store_ok st \<Longrightarrow> parse_lines ls st = Inr st' \<Longrightarrow> store_ok st'"
proof (induction ls arbitrary: st)
  case Nil
  then show ?case by simp
next
  case (Cons l ls)
  from Cons.prems(2) obtain st1 where 1: "parse_line l st = Inr st1" "parse_lines ls st1 = Inr st'"
    by (cases "parse_line l st") (simp_all add: bind_def)
  show ?case using Cons.IH[OF parse_line_ok[OF Cons.prems(1) 1(1)] 1(2)] .
qed

lemma mark_pane_ok:
  assumes "list_all obj_ok (store st)" "a < length (store st)"
  shows "mark_pane a st = Inl IndexError \<or>
         (\<exists>st'. mark_pane a st = Inr st' \<and> list_all obj_ok (store st')
                \<and> length (store st') = length (store st))"
proof -
  from assms obtain cs where g: "get_controls (store st ! a) = Inr cs" and l: "list_all is_dict cs"
    by (cases "get_controls (store st ! a)") (auto simp: list_all_length obj_ok_def)
  show ?thesis
  proof (cases cs)
    case Nil
    then show ?thesis using g by (simp add: mark_pane_empty)
  next
    case (Cons e rest)
    then obtain d where d: "e = PDict d" using l by (cases e) (simp_all add: is_dict_def)
    have r: "list_all is_dict rest" using l Cons by simp
    show ?thesis
    proof (cases "map_of d ''is_pane''")
      case None
      then show ?thesis using g Cons d assms(1) by (simp add: mark_pane_def bind_def)
    next
      case (Some p)
      let ?d2 = "if truthy p then AList.update ''type'' (PStr ''PANE'') (AList.delete ''is_pane'' d)
                 else AList.delete ''is_pane'' d"
      have "list_all is_dict (PDict ?d2 # rest)" using r by (simp add: is_dict_def)
      then have "obj_ok (with_controls (PDict ?d2 # rest) (store st ! a))"
        by (rule obj_ok_with_controls[OF g])
      then have "list_all obj_ok ((store st)[a := with_controls (PDict ?d2 # rest) (store st ! a)])"
        using assms(1) by (intro list_all_update)
      moreover have "mark_pane a st =
          Inr (st\<lparr>store := (store st)[a := with_controls (PDict ?d2 # rest) (store st ! a)]\<rparr>)"
        using g Cons d Some by (simp add: mark_pane_def bind_def Let_def)
      ultimately show ?thesis by simp
    qed
  qed
qed

lemma mark_panes_error:
  "list_all obj_ok (store st) \<Longrightarrow> list_all (\<lambda>a. a < length (store st)) ws \<Longrightarrow>
   mark_panes ws st = Inl e \<Longrightarrow> e = IndexError"
proof (induction ws arbitrary: st)
  case Nil
  then show ?case by simp
next
  case (Cons a ws)
  have a: "a < length (store st)" using Cons.prems(2) by simp
  from mark_pane_ok[OF Cons.prems(1) a] show ?case
  proof
    assume "mark_pane a st = Inl IndexError"
    then show ?thesis using Cons.prems(3) by (simp add: bind_def)
  next
    assume "\<exists>st'. mark_pane a st = Inr st' \<and> list_all obj_ok (store st')
                \<and> length (store st') = length (store st)"
    then obtain st1 where 1: "mark_pane a st = Inr st1" "list_all obj_ok (store st1)"
        "length (store st1) = length (store st)" by blast
    have "list_all (\<lambda>a. a < length (store st1)) ws" using Cons.prems(2) 1(3) by simp
    moreover have "mark_panes ws st1 = Inl e" using Cons.prems(3) 1(1) by (simp add: bind_def)
    ultimately show ?thesis using Cons.IH[OF 1(2)] by blast
  qed
qed

text \<open>
  Claim C7. When the file holds a line that opens a \<^verbatim>\<open>window\<close> category and no
  element line follows before the next category line or the end of the file, the
  pipeline fails: \<^verbatim>\<open>parse_file\<close> raises, and so does \<^verbatim>\<open>parse\<close>, with the same error.
  If every line is parsed, the error is the \<^verbatim>\<open>IndexError\<close> of the inspection of the
  first element, so no window record is produced.
\<close>

theorem empty_window_fails:
  assumes "file_lines False [] text = pre @ [h] @ body @ rest"
    and "kind_of h = Category" and "parse_key_value (rstrip h) = Inr (''window'', i)"
    and "\<forall>l\<in>set body. kind_of l = Blank \<or> kind_of l = Attribute"
    and "rest = [] \<or> kind_of (hd rest) = Category"
  shows "\<exists>e. parse_file text init = Inl e \<and> parse order text = Inl e
           \<and> (\<forall>st. parse_lines (file_lines False [] text) init = Inr st \<longrightarrow> e = IndexError)"
proof (cases "parse_lines (file_lines False [] text) init")
  case (Inl e)
  then show ?thesis by (simp add: parse_file_def parse_def bind_def)
next
  case (Inr st)
  from Inr obtain st0 where 0: "parse_lines pre init = Inr st0"
      and r0: "parse_lines ([h] @ body @ rest) st0 = Inr st"
    unfolding assms(1) parse_lines_append[of pre] by (cases "parse_lines pre init") (simp_all add: bind_def)
  from r0 obtain st1 where 1: "parse_line h st0 = Inr st1"
      and r1: "parse_lines (body @ rest) st1 = Inr st"
    by (cases "parse_line h st0") (simp_all add: bind_def)
  from r1 obtain st2 where 2: "parse_lines body st1 = Inr st2"
      and r2: "parse_lines rest st2 = Inr st"
    unfolding parse_lines_append[of body] by (cases "parse_lines body st1") (simp_all add: bind_def)
  let ?w = "length (store st0)"
  have "parse_category (rstrip h) st0 = Inr st1" using 1 assms(2) by (simp add: parse_line_kind)
  from parse_category_window[OF assms(3) this]
  have w1: "empty_window ?w st1" and c1: "category st1 = Some ?w" by simp_all
  have w2: "empty_window ?w st2" using parse_lines_body[OF w1 assms(4) 2] .
  have w: "empty_window ?w st"
  proof (cases rest)
    case Nil
    then show ?thesis using w2 r2 by simp
  next
    case (Cons l ls)
    then have k: "kind_of l = Category" using assms(5) by simp
    from r2 Cons obtain st3 where 3: "parse_line l st2 = Inr st3" "parse_lines ls st3 = Inr st"
      by (cases "parse_line l st2") (simp_all add: bind_def)
    have "parse_category (rstrip l) st2 = Inr st3" using 3(1) k by (simp add: parse_line_kind)
    from parse_category_empty[OF w2 this] show ?thesis using parse_lines_other 3(2) by blast
  qed
  then have "\<exists>e. mark_panes (windows st) st = Inl e"
    by (intro mark_panes_empty[of ?w]) (simp_all add: empty_window_def)
  then obtain e where e: "mark_panes (windows st) st = Inl e" by blast
  have "store_ok st" using parse_lines_ok[OF store_ok_init Inr] .
  then have "e = IndexError" using mark_panes_error[OF _ _ e] by (simp add: store_ok_def)
  then show ?thesis using e Inr by (simp add: parse_file_def parse_def bind_def)
qed

text \<open>A window, a blank line, and a menu: the window has no element.\<close>

theorem empty_window_fails_witness:
  "file_lines False [] (''window '' @ [CHR 0x22] @ ''w'' @ [CHR 0x22, CHR 0x0A, CHR 0x0A] @ ''menu'' @ [CHR 0x0A])
     = [] @ [''window '' @ [CHR 0x22] @ ''w'' @ [CHR 0x22, CHR 0x0A]] @ [[CHR 0x0A]] @ [''menu'' @ [CHR 0x0A]]
   \<and> parse_file (''window '' @ [CHR 0x22] @ ''w'' @ [CHR 0x22, CHR 0x0A, CHR 0x0A] @ ''menu'' @ [CHR 0x0A]) init
       = Inl IndexError
   \<and> (\<forall>order.
         parse order (''window '' @ [CHR 0x22] @ ''w'' @ [CHR 0x22, CHR 0x0A, CHR 0x0A] @ ''menu'' @ [CHR 0x0A])
         = Inl IndexError)"
proof -
  let ?text = "''window '' @ [CHR 0x22] @ ''w'' @ [CHR 0x22, CHR 0x0A, CHR 0x0A] @ ''menu'' @ [CHR 0x0A]"
  let ?h = "''window '' @ [CHR 0x22] @ ''w'' @ [CHR 0x22, CHR 0x0A]"
  have 1: "file_lines False [] ?text = [] @ [?h] @ [[CHR 0x0A]] @ [''menu'' @ [CHR 0x0A]]"
    by simp
  have 2: "kind_of ?h = Category"
    by (simp add: kind_of_def rstrip_def is_space_def)
  have 3: "parse_key_value (rstrip ?h) = Inr (''window'', Some ''w'')"
    by (simp add: parse_key_value_def rstrip_def py_split_def is_space_def strip_chars_def)
  have 4: "\<forall>l\<in>set [[CHR 0x0A]]. kind_of l = Blank \<or> kind_of l = Attribute"
    by (simp add: kind_of_def rstrip_def is_space_def)
  have 5: "[''menu'' @ [CHR 0x0A]] = [] \<or> kind_of (hd [''menu'' @ [CHR 0x0A]]) = Category"
    by (simp add: kind_of_def rstrip_def is_space_def)
  have "case parse_lines (file_lines False [] ?text) init of Inl e \<Rightarrow> False | Inr st \<Rightarrow> True"
    by code_simp
  then have 6: "\<exists>st. parse_lines (file_lines False [] ?text) init = Inr st"
    by (cases "parse_lines (file_lines False [] ?text) init") simp_all
  have "parse_file ?text init = Inl IndexError \<and> parse order ?text = Inl IndexError" for order
    using empty_window_fails [OF 1 2 3 4 5, of order] 6 by auto
  then show ?thesis using 1 by blast
qed

section \<open>The addresses in the three lists\<close>

text \<open>
  After \<^verbatim>\<open>parse_file\<close> the three lists hold addresses of the store, each at most
  once: the categories that \<^verbatim>\<open>post_process\<close> rewrites are distinct objects.
\<close>

lemma parse_category_lists:
  assumes "parse_category l st = Inr st'"
  shows "length (store st') = Suc (length (store st))"
    and "\<exists>xs. macrolists st' @ menubars st' @ windows st' = xs \<and>
           set xs \<subseteq> insert (length (store st)) (set (macrolists st @ menubars st @ windows st)) \<and>
           (distinct (macrolists st @ menubars st @ windows st) \<longrightarrow>
            length (store st) \<notin> set (macrolists st @ menubars st @ windows st) \<longrightarrow> distinct xs)"
proof -
  from assms obtain t i where p: "parse_key_value l = Inr (t, i)"
    by (cases "parse_key_value l") (auto simp: parse_category_def bind_def)
  from assms have st': "st' = (let a = length (store st);
           c = PDict (header_dict t i @ [(''controls'', PList [])]);
           st1 = st\<lparr>store := store st @ [c], category := Some a\<rparr>
       in (if t = ''macro'' then st1\<lparr>macrolists := macrolists st1 @ [a]\<rparr>
               else if t = ''menu'' then st1\<lparr>menubars := menubars st1 @ [a]\<rparr>
               else if t = ''window'' then st1\<lparr>windows := windows st1 @ [a]\<rparr>
               else st1))"
    by (simp add: parse_category_def bind_def p Let_def)
  show "length (store st') = Suc (length (store st))"
    unfolding st' by (simp add: Let_def)
  show "\<exists>xs. macrolists st' @ menubars st' @ windows st' = xs \<and>
           set xs \<subseteq> insert (length (store st)) (set (macrolists st @ menubars st @ windows st)) \<and>
           (distinct (macrolists st @ menubars st @ windows st) \<longrightarrow>
            length (store st) \<notin> set (macrolists st @ menubars st @ windows st) \<longrightarrow> distinct xs)"
    unfolding st' by (auto simp add: Let_def)
qed

lemma parse_line_lists:
  assumes "parse_line l st = Inr st'"
    and "distinct (macrolists st @ menubars st @ windows st)"
    and "\<forall>a\<in>set (macrolists st @ menubars st @ windows st). a < length (store st)"
  shows "distinct (macrolists st' @ menubars st' @ windows st') \<and>
         (\<forall>a\<in>set (macrolists st' @ menubars st' @ windows st'). a < length (store st'))"
proof (cases "kind_of l")
  case Blank
  then show ?thesis using assms by (simp add: parse_line_kind)
next
  case Attribute
  then have "parse_attribute (rstrip l) st = Inr st'" using assms(1) by (simp add: parse_line_kind)
  then obtain k v where "set_element k v st = Inr st'" by (rule parse_attribute_Inr)
  then obtain a i cs e where
    "st' = st\<lparr>store := (store st)[a := with_controls (cs[i := e]) (store st ! a)]\<rparr>"
    by (rule set_element_Inr)
  then show ?thesis using assms(2,3) by simp
next
  case Element
  then have "parse_element (rstrip l) st = Inr st'" using assms(1) by (simp add: parse_line_kind)
  then obtain a cs e where
    "st' = st\<lparr>store := (store st)[a := with_controls (cs @ [e]) (store st ! a)],
              element := Some (a, length cs)\<rparr>"
    by (rule parse_element_Inr)
  then show ?thesis using assms(2,3) by simp
next
  case Category
  then have c: "parse_category (rstrip l) st = Inr st'" using assms(1) by (simp add: parse_line_kind)
  have fresh: "length (store st) \<notin> set (macrolists st @ menubars st @ windows st)"
    using assms(3) by blast
  from parse_category_lists(2)[OF c] assms(2) fresh
  have d: "distinct (macrolists st' @ menubars st' @ windows st')"
    and s: "set (macrolists st' @ menubars st' @ windows st')
           \<subseteq> insert (length (store st)) (set (macrolists st @ menubars st @ windows st))"
    by blast+
  have "\<forall>a\<in>set (macrolists st' @ menubars st' @ windows st'). a < length (store st')"
  proof
    fix a assume "a \<in> set (macrolists st' @ menubars st' @ windows st')"
    then have "a = length (store st) \<or> a \<in> set (macrolists st @ menubars st @ windows st)"
      using s by blast
    then have "a \<le> length (store st)" using assms(3) by (auto intro: less_imp_le)
    then show "a < length (store st')"
      using parse_category_lists(1)[OF c] by simp
  qed
  then show ?thesis using d by simp
qed

lemma parse_lines_lists:
  "parse_lines ls st = Inr st' \<Longrightarrow> distinct (macrolists st @ menubars st @ windows st) \<Longrightarrow>
   \<forall>a\<in>set (macrolists st @ menubars st @ windows st). a < length (store st) \<Longrightarrow>
   distinct (macrolists st' @ menubars st' @ windows st') \<and>
   (\<forall>a\<in>set (macrolists st' @ menubars st' @ windows st'). a < length (store st'))"
proof (induction ls arbitrary: st)
  case Nil
  then show ?case by simp
next
  case (Cons l ls)
  from Cons.prems(1) obtain st1 where 1: "parse_line l st = Inr st1" "parse_lines ls st1 = Inr st'"
    by (cases "parse_line l st") (simp_all add: bind_def)
  from parse_line_lists[OF 1(1) Cons.prems(2,3)] show ?case using Cons.IH[OF 1(2)] by blast
qed

lemma mark_panes_lists:
  "mark_panes ws st = Inr st' \<Longrightarrow>
   macrolists st' = macrolists st \<and> menubars st' = menubars st \<and> windows st' = windows st
   \<and> length (store st') = length (store st)"
proof (induction ws arbitrary: st)
  case Nil
  then show ?case by simp
next
  case (Cons a ws)
  from Cons.prems obtain st1 where 1: "mark_pane a st = Inr st1" "mark_panes ws st1 = Inr st'"
    by (cases "mark_pane a st") (simp_all add: bind_def)
  from 1(1) obtain cs where cs: "get_controls (store st ! a) = Inr cs"
    by (cases "get_controls (store st ! a)") (simp_all add: mark_pane_def bind_def)
  from 1(1) cs obtain e rest where c: "cs = e # rest"
    by (cases cs) (simp_all add: mark_pane_def bind_def)
  from 1(1) cs c obtain d where d: "e = PDict d"
    by (cases e) (simp_all add: mark_pane_def bind_def)
  from 1(1) cs c d
  have "macrolists st1 = macrolists st \<and> menubars st1 = menubars st \<and> windows st1 = windows st
        \<and> length (store st1) = length (store st)"
    by (cases "map_of d ''is_pane''") (auto simp add: mark_pane_def bind_def Let_def)
  then show ?case using Cons.IH[OF 1(2)] by simp
qed

lemma parse_file_addresses:
  assumes "parse_file text init = Inr st"
  shows "distinct (macrolists st @ menubars st @ windows st)"
    and "\<forall>a\<in>set (macrolists st @ menubars st @ windows st). a < length (store st)"
proof -
  from assms obtain st1 where 1: "parse_lines (file_lines False [] text) init = Inr st1"
      and 2: "mark_panes (windows st1) st1 = Inr st"
    by (cases "parse_lines (file_lines False [] text) init") (simp_all add: parse_file_def bind_def)
  have "distinct (macrolists st1 @ menubars st1 @ windows st1) \<and>
     (\<forall>a\<in>set (macrolists st1 @ menubars st1 @ windows st1). a < length (store st1))"
    by (rule parse_lines_lists[OF 1]) (simp_all add: init_def)
  then show "distinct (macrolists st @ menubars st @ windows st)"
    and "\<forall>a\<in>set (macrolists st @ menubars st @ windows st). a < length (store st)"
    using mark_panes_lists[OF 2] by simp_all
qed

section \<open>Grouping of the actions of a menu bar\<close>

lemma menu_step_top_Inr:
  assumes "map_of m ''category'' = None" "menu_step (PDict m) (cs, gs) = Inr (cs', gs')"
  obtains n where "map_of m ''name'' = Some n"
    "cs' = AList.update (key_of n) (PDict (as_menu m)) cs"
proof -
  from assms(2) obtain n where n: "map_of m ''name'' = Some n"
    unfolding menu_step_top[OF assms(1)] by (cases "map_of m ''name''") simp_all
  from assms(2) n have "cs' = AList.update (key_of n) (PDict (as_menu m)) cs"
    unfolding menu_step_top[OF assms(1)] by (cases "hashable n") simp_all
  then show ?thesis using that n by blast
qed

lemma first_seen_snoc:
  "rev (remdups (rev (xs @ [x]))) =
     (if x \<in> set xs then rev (remdups (rev xs)) else rev (remdups (rev xs)) @ [x])"
  by simp

lemma menu_step_keys:
  assumes "menu_step e (cs, gs) = Inr (cs', gs')"
  shows "map fst cs' = (if entry_key e \<in> set (map fst cs) then map fst cs
                        else map fst cs @ [entry_key e])"
proof -
  from menu_step_dict[OF assms] obtain m where e: "e = PDict m" by blast
  show ?thesis
  proof (cases "map_of m ''category''")
    case None
    from assms obtain n where n: "map_of m ''name'' = Some n"
      "cs' = AList.update (key_of n) (PDict (as_menu m)) cs"
      unfolding e by (rule menu_step_top_Inr[OF None])
    have "entry_key e = key_of n" using e None n(1) by (simp add: entry_key_def)
    then show ?thesis by (simp add: n(2) update_keys)
  next
    case (Some cn)
    let ?k = "key_of cn"
    let ?cs1 = "if map_of cs ?k = None then AList.update ?k (new_category cn) cs else cs"
    have k: "entry_key e = ?k" using e Some by (simp add: entry_key_def)
    from menu_step_ref_Inr(3)[OF Some assms[unfolded e]]
    obtain d acts where r: "map_of ?cs1 ?k = Some (PDict d)"
      and cs': "cs' = AList.update ?k (PDict (AList.update ''actions'' (PList (acts @ [as_action (AList.delete ''category'' m)])) d)) ?cs1"
      by (rule append_action_Inr)
    have in1: "?k \<in> set (map fst ?cs1)"
      using r by (metis map_of_eq_None_iff option.distinct(1) set_map)
    have "map fst cs' = map fst ?cs1" unfolding cs' using in1 by (simp add: update_keys)
    also have "\<dots> = (if ?k \<in> set (map fst cs) then map fst cs else map fst cs @ [?k])"
      by (cases "map_of cs ?k = None") (auto simp: update_keys map_of_eq_None_iff)
    finally show ?thesis using k by simp
  qed
qed

lemma menu_loop_keys:
  "menu_loop es ([], []) = Inr (cs, gs) \<Longrightarrow> map fst cs = rev (remdups (rev (map entry_key es)))"
proof (induction es arbitrary: cs gs rule: rev_induct)
  case Nil
  then show ?case by simp
next
  case (snoc e es)
  from snoc.prems obtain cs1 gs1 where 1: "menu_loop es ([], []) = Inr (cs1, gs1)"
      and 2: "menu_step e (cs1, gs1) = Inr (cs, gs)"
    unfolding menu_loop_append
    by (cases "menu_loop es ([], [])"; cases "menu_step e (projr (menu_loop es ([], [])))")
       (auto simp: bind_def)
  have "set (map fst cs1) = set (map entry_key es)" using snoc.IH[OF 1] by simp
  then show ?case using menu_step_keys[OF 2] snoc.IH[OF 1] first_seen_snoc[of "map entry_key es" "entry_key e"]
    by simp
qed

lemma menu_step_other:
  assumes "menu_step e (cs, gs) = Inr (cs', gs')" "entry_key e \<noteq> k"
  shows "map_of cs' k = map_of cs k"
proof -
  have "k \<notin> set (map fst cs') \<longleftrightarrow> k \<notin> set (map fst cs)"
    using menu_step_keys[OF assms(1)] assms(2) by (auto split: if_splits)
  from menu_step_dict[OF assms(1)] obtain m where e: "e = PDict m" by blast
  show ?thesis
  proof (cases "map_of m ''category''")
    case None
    from assms(1) obtain n where n: "map_of m ''name'' = Some n"
      "cs' = AList.update (key_of n) (PDict (as_menu m)) cs"
      unfolding e by (rule menu_step_top_Inr[OF None])
    have "key_of n \<noteq> k" using e None n(1) assms(2) by (simp add: entry_key_def)
    then show ?thesis by (simp add: n(2) update_conv')
  next
    case (Some cn)
    let ?k = "key_of cn"
    let ?cs1 = "if map_of cs ?k = None then AList.update ?k (new_category cn) cs else cs"
    have k: "?k \<noteq> k" using e Some assms(2) by (simp add: entry_key_def)
    from menu_step_ref_Inr(3)[OF Some assms(1)[unfolded e]]
    obtain d acts where
      cs': "cs' = AList.update ?k (PDict (AList.update ''actions'' (PList (acts @ [as_action (AList.delete ''category'' m)])) d)) ?cs1"
      by (rule append_action_Inr)
    have "map_of cs' k = map_of ?cs1 k" unfolding cs' using k by (simp add: update_conv')
    also have "\<dots> = map_of cs k" using k by (simp add: update_conv')
    finally show ?thesis .
  qed
qed

lemma entry_key_other:
  assumes "menu_step e (cs, gs) = Inr (cs', gs')" "\<not> in_category c e" "\<not> is_menu_named c e"
  shows "entry_key e \<noteq> key_of c"
proof -
  from menu_step_dict[OF assms(1)] obtain m where e: "e = PDict m" by blast
  show ?thesis
  proof (cases "map_of m ''category''")
    case None
    from assms(1) obtain n where n: "map_of m ''name'' = Some n"
      unfolding e by (rule menu_step_top_Inr[OF None])
    then show ?thesis using e None assms(3) by (simp add: entry_key_def is_menu_named_def)
  next
    case (Some cn)
    then show ?thesis using e assms(2) by (simp add: entry_key_def in_category_def)
  qed
qed

lemma menu_step_menu:
  assumes "menu_step e (cs, gs) = Inr (cs', gs')" "is_menu_named c e"
  shows "\<exists>d. map_of cs' (key_of c) = Some (PDict d) \<and> map_of d ''actions'' = Some (PList [])"
proof -
  from menu_step_dict[OF assms(1)] obtain m where e: "e = PDict m" by blast
  have None: "map_of m ''category'' = None" using assms(2) e by (simp add: is_menu_named_def)
  from assms(1) obtain n where n: "map_of m ''name'' = Some n"
      "cs' = AList.update (key_of n) (PDict (as_menu m)) cs"
    unfolding e by (rule menu_step_top_Inr[OF None])
  have "key_of n = key_of c" using assms(2) e n(1) by (simp add: is_menu_named_def)
  then have "map_of cs' (key_of c) = Some (PDict (as_menu m))" by (simp add: n(2) update_conv')
  then show ?thesis using as_menu_actions by blast
qed

lemma menu_step_action:
  assumes "menu_step e (cs, gs) = Inr (cs', gs')" "in_category c e"
  shows "map_of cs (key_of c) = Some (PDict d) \<Longrightarrow> map_of d ''actions'' = Some (PList acts) \<Longrightarrow>
         map_of cs' (key_of c) = Some (PDict (AList.update ''actions'' (PList (acts @ [action_of e])) d))"
    and "map_of cs (key_of c) = None \<Longrightarrow>
         \<exists>c0. key_of c0 = key_of c \<and> map_of cs' (key_of c) =
           Some (PDict [(''name'', c0), (''command'', PStr []), (''saved_params'', PStr ''is_checked''),
                        (''actions'', PList [action_of e])])"
proof -
  from menu_step_dict[OF assms(1)] obtain m where e: "e = PDict m" by blast
  from assms(2) e obtain cn where cn: "map_of m ''category'' = Some cn" "key_of cn = key_of c"
    by (cases "map_of m ''category''") (simp_all add: in_category_def)
  let ?k = "key_of c"
  let ?a = "as_action (AList.delete ''category'' m)"
  have a: "action_of e = ?a" using e by (simp add: action_of_def)
  let ?cs1 = "if map_of cs ?k = None then AList.update ?k (new_category cn) cs else cs"
  have app: "append_action ?k ?a ?cs1 = Inr cs'"
    using menu_step_ref_Inr(3)[OF cn(1) assms(1)[unfolded e], unfolded cn(2)] .
  {
    assume s: "map_of cs ?k = Some (PDict d)" "map_of d ''actions'' = Some (PList acts)"
    then have "append_action ?k ?a ?cs1 =
        Inr (AList.update ?k (PDict (AList.update ''actions'' (PList (acts @ [?a])) d)) cs)"
      using append_action_total[OF s, of ?a] by simp
    then have "cs' = AList.update ?k (PDict (AList.update ''actions'' (PList (acts @ [?a])) d)) cs"
      using app by simp
    then show "map_of cs' ?k = Some (PDict (AList.update ''actions'' (PList (acts @ [action_of e])) d))"
      using a by (simp add: update_conv')
  }
  {
    assume n: "map_of cs ?k = None"
    let ?d = "[(''name'', cn), (''command'', PStr []), (''saved_params'', PStr ''is_checked''),
               (''actions'', PList [])]"
    have 1: "map_of (AList.update ?k (new_category cn) cs) ?k = Some (PDict ?d)"
      by (simp add: update_conv' new_category_def)
    have 2: "map_of ?d ''actions'' = Some (PList [])" by simp
    have "append_action ?k ?a ?cs1 =
        Inr (AList.update ?k (PDict (AList.update ''actions'' (PList ([] @ [?a])) ?d))
               (AList.update ?k (new_category cn) cs))"
      using append_action_total[OF 1 2, of ?a] n by simp
    then have "cs' = AList.update ?k (PDict (AList.update ''actions'' (PList ([] @ [?a])) ?d))
               (AList.update ?k (new_category cn) cs)"
      using app by simp
    then have "map_of cs' ?k = Some (PDict [(''name'', cn), (''command'', PStr []),
         (''saved_params'', PStr ''is_checked''), (''actions'', PList [action_of e])])"
      using a by (simp add: update_conv')
    then show "\<exists>c0. key_of c0 = key_of c \<and> map_of cs' (key_of c) =
           Some (PDict [(''name'', c0), (''command'', PStr []), (''saved_params'', PStr ''is_checked''),
                        (''actions'', PList [action_of e])])"
      using cn(2) by blast
  }
qed

lemma menu_loop_Cons_Inr:
  assumes "menu_loop (e # es) (cs, gs) = Inr (cs', gs')"
  obtains cs1 gs1 where "menu_step e (cs, gs) = Inr (cs1, gs1)" "menu_loop es (cs1, gs1) = Inr (cs', gs')"
proof (cases "menu_step e (cs, gs)")
  case (Inl x)
  then show ?thesis using assms by (simp add: bind_def)
next
  case (Inr r)
  obtain cs1 gs1 where "r = (cs1, gs1)" by (cases r)
  then show ?thesis using that Inr assms by (simp add: bind_def)
qed

lemma menu_loop_no_entry:
  "menu_loop es (cs, gs) = Inr (cs', gs') \<Longrightarrow>
   \<forall>e\<in>set es. \<not> in_category c e \<and> \<not> is_menu_named c e \<Longrightarrow>
   map_of cs' (key_of c) = map_of cs (key_of c)"
proof (induction es arbitrary: cs gs)
  case Nil
  then show ?case by simp
next
  case (Cons e es)
  from Cons.prems(1) obtain cs1 gs1 where 1: "menu_step e (cs, gs) = Inr (cs1, gs1)"
      "menu_loop es (cs1, gs1) = Inr (cs', gs')" by (rule menu_loop_Cons_Inr)
  have "entry_key e \<noteq> key_of c" using entry_key_other[OF 1(1)] Cons.prems(2) by simp
  then have "map_of cs1 (key_of c) = map_of cs (key_of c)" by (rule menu_step_other[OF 1(1)])
  then show ?case using Cons.IH[OF 1(2)] Cons.prems(2) by simp
qed

lemma menu_loop_no_action:
  "menu_loop es (cs, gs) = Inr (cs', gs') \<Longrightarrow> \<forall>e\<in>set es. \<not> in_category c e \<Longrightarrow>
   map_of cs (key_of c) = None \<or>
     (\<exists>d. map_of cs (key_of c) = Some (PDict d) \<and> map_of d ''actions'' = Some (PList [])) \<Longrightarrow>
   map_of cs' (key_of c) = None \<or>
     (\<exists>d. map_of cs' (key_of c) = Some (PDict d) \<and> map_of d ''actions'' = Some (PList []))"
proof (induction es arbitrary: cs gs)
  case Nil
  then show ?case by simp
next
  case (Cons e es)
  from Cons.prems(1) obtain cs1 gs1 where 1: "menu_step e (cs, gs) = Inr (cs1, gs1)"
      "menu_loop es (cs1, gs1) = Inr (cs', gs')" by (rule menu_loop_Cons_Inr)
  have n: "\<not> in_category c e" using Cons.prems(2) by simp
  have "map_of cs1 (key_of c) = None \<or>
     (\<exists>d. map_of cs1 (key_of c) = Some (PDict d) \<and> map_of d ''actions'' = Some (PList []))"
  proof (cases "is_menu_named c e")
    case True
    then show ?thesis using menu_step_menu[OF 1(1)] by blast
  next
    case False
    have "entry_key e \<noteq> key_of c" using entry_key_other[OF 1(1) n False] .
    then have "map_of cs1 (key_of c) = map_of cs (key_of c)" by (rule menu_step_other[OF 1(1)])
    then show ?thesis using Cons.prems(3) by simp
  qed
  then show ?case using Cons.IH[OF 1(2)] Cons.prems(2) by simp
qed

lemma menu_loop_actions:
  "menu_loop es (cs, gs) = Inr (cs', gs') \<Longrightarrow> \<forall>e\<in>set es. \<not> is_menu_named c e \<Longrightarrow>
   map_of cs (key_of c) = Some (PDict d) \<Longrightarrow> map_of d ''actions'' = Some (PList acts) \<Longrightarrow>
   map_of cs' (key_of c) =
     Some (PDict (AList.update ''actions'' (PList (acts @ map action_of (filter (in_category c) es))) d))"
proof (induction es arbitrary: cs gs d acts)
  case Nil
  then show ?case by (simp add: update_triv)
next
  case (Cons e es)
  from Cons.prems(1) obtain cs1 gs1 where 1: "menu_step e (cs, gs) = Inr (cs1, gs1)"
      "menu_loop es (cs1, gs1) = Inr (cs', gs')" by (rule menu_loop_Cons_Inr)
  have nm: "\<not> is_menu_named c e" "\<forall>e\<in>set es. \<not> is_menu_named c e" using Cons.prems(2) by simp_all
  show ?case
  proof (cases "in_category c e")
    case True
    let ?d1 = "AList.update ''actions'' (PList (acts @ [action_of e])) d"
    have s: "map_of cs1 (key_of c) = Some (PDict ?d1)"
      using menu_step_action(1)[OF 1(1) True Cons.prems(3,4)] .
    have a: "map_of ?d1 ''actions'' = Some (PList (acts @ [action_of e]))"
      by (simp add: update_conv')
    show ?thesis using Cons.IH[OF 1(2) nm(2) s a] True by simp
  next
    case False
    have "entry_key e \<noteq> key_of c" using entry_key_other[OF 1(1) False nm(1)] .
    then have "map_of cs1 (key_of c) = Some (PDict d)"
      using menu_step_other[OF 1(1)] Cons.prems(3) by simp
    then show ?thesis using Cons.IH[OF 1(2) nm(2) _ Cons.prems(4)] False by simp
  qed
qed

lemma menu_loop_new_category:
  "menu_loop es (cs, gs) = Inr (cs', gs') \<Longrightarrow> \<forall>e\<in>set es. \<not> is_menu_named c e \<Longrightarrow>
   map_of cs (key_of c) = None \<Longrightarrow> \<exists>e\<in>set es. in_category c e \<Longrightarrow>
   \<exists>c0. key_of c0 = key_of c \<and> map_of cs' (key_of c) =
     Some (PDict [(''name'', c0), (''command'', PStr []), (''saved_params'', PStr ''is_checked''),
                  (''actions'', PList (map action_of (filter (in_category c) es)))])"
proof (induction es arbitrary: cs gs)
  case Nil
  then show ?case by simp
next
  case (Cons e es)
  from Cons.prems(1) obtain cs1 gs1 where 1: "menu_step e (cs, gs) = Inr (cs1, gs1)"
      "menu_loop es (cs1, gs1) = Inr (cs', gs')" by (rule menu_loop_Cons_Inr)
  have nm: "\<not> is_menu_named c e" "\<forall>e\<in>set es. \<not> is_menu_named c e" using Cons.prems(2) by simp_all
  show ?case
  proof (cases "in_category c e")
    case True
    from menu_step_action(2)[OF 1(1) True Cons.prems(3)] obtain c0 where
      c0: "key_of c0 = key_of c" and
      s: "map_of cs1 (key_of c) =
           Some (PDict [(''name'', c0), (''command'', PStr []), (''saved_params'', PStr ''is_checked''),
                        (''actions'', PList [action_of e])])" by blast
    have "map_of cs' (key_of c) =
      Some (PDict (AList.update ''actions''
         (PList ([action_of e] @ map action_of (filter (in_category c) es)))
         [(''name'', c0), (''command'', PStr []), (''saved_params'', PStr ''is_checked''),
          (''actions'', PList [action_of e])]))"
      by (rule menu_loop_actions[OF 1(2) nm(2) s]) simp
    then show ?thesis using c0 True by simp
  next
    case False
    have "entry_key e \<noteq> key_of c" using entry_key_other[OF 1(1) False nm(1)] .
    then have "map_of cs1 (key_of c) = None"
      using menu_step_other[OF 1(1)] Cons.prems(3) by simp
    moreover have "\<exists>e\<in>set es. in_category c e" using Cons.prems(4) False by simp
    ultimately show ?thesis using Cons.IH[OF 1(2) nm(2)] False by simp
  qed
qed

lemma post_menubar_Inr:
  assumes "post_menubar order (PDict mb) = Inr out" "map_of mb ''controls'' = Some (PList es)"
  obtains cs gs where "menu_loop es ([], []) = Inr (cs, gs)"
    "out = PDict (AList.update ''groups'' (PList (list_of_set order gs))
                 (AList.update ''menus'' (PList (map snd cs))
                 (AList.update ''type'' (PStr ''MENUBAR'') (AList.delete ''controls'' mb))))"
proof (cases "menu_loop es ([], [])")
  case (Inl x)
  then show ?thesis using assms by (simp add: post_menubar_def bind_def)
next
  case (Inr r)
  obtain cs gs where "r = (cs, gs)" by (cases r)
  then show ?thesis using that Inr assms by (simp add: post_menubar_def bind_def)
qed

lemma menu_loop_grouped:
  assumes "menu_loop (pre @ post) ([], []) = Inr (cs, gs)"
    and "\<forall>e\<in>set pre. \<not> in_category c e"
    and "\<forall>e\<in>set post. \<not> is_menu_named c e"
    and "\<exists>e\<in>set post. in_category c e"
  shows "\<exists>d. map_of cs (key_of c) = Some (PDict d)
      \<and> map_of d ''actions'' = Some (PList (map action_of (filter (in_category c) (pre @ post))))
      \<and> ((\<forall>e\<in>set pre. \<not> is_menu_named c e) \<longrightarrow>
           (\<exists>c0. key_of c0 = key_of c \<and>
              d = [(''name'', c0), (''command'', PStr []), (''saved_params'', PStr ''is_checked''),
                   (''actions'', PList (map action_of (filter (in_category c) (pre @ post))))]))"
proof -
  let ?k = "key_of c"
  let ?A = "map action_of (filter (in_category c) post)"
  have f: "filter (in_category c) (pre @ post) = filter (in_category c) post"
    using assms(2) by simp
  from assms(1) obtain cs1 gs1 where 1: "menu_loop pre ([], []) = Inr (cs1, gs1)"
      and 2: "menu_loop post (cs1, gs1) = Inr (cs, gs)"
    unfolding menu_loop_append
    by (cases "menu_loop pre ([], [])") (auto simp: bind_def)
  have fresh: "map_of cs1 ?k = None \<or>
     (\<exists>d. map_of cs1 ?k = Some (PDict d) \<and> map_of d ''actions'' = Some (PList []))"
    by (rule menu_loop_no_action[OF 1 assms(2)]) simp
  have nomenu: "map_of cs1 ?k = None" if "\<forall>e\<in>set pre. \<not> is_menu_named c e"
    using menu_loop_no_entry[OF 1, of c] assms(2) that by simp
  show ?thesis
  proof (cases "map_of cs1 ?k")
    case None
    from menu_loop_new_category[OF 2 assms(3) None assms(4)] obtain c0 where
      c0: "key_of c0 = ?k" and
      s: "map_of cs ?k = Some (PDict [(''name'', c0), (''command'', PStr []),
             (''saved_params'', PStr ''is_checked''), (''actions'', PList ?A)])" by blast
    show ?thesis unfolding f using s c0 by auto
  next
    case (Some r)
    then obtain d1 where d1: "map_of cs1 ?k = Some (PDict d1)" "map_of d1 ''actions'' = Some (PList [])"
      using fresh by auto
    have s: "map_of cs ?k = Some (PDict (AList.update ''actions'' (PList ([] @ ?A)) d1))"
      by (rule menu_loop_actions[OF 2 assms(3) d1])
    have ne: "\<not> (\<forall>e\<in>set pre. \<not> is_menu_named c e)" using nomenu Some by auto
    have a: "map_of (AList.update ''actions'' (PList ([] @ ?A)) d1) ''actions'' = Some (PList ?A)"
      by (simp add: update_conv')
    show ?thesis unfolding f using s a ne by blast
  qed
qed

text \<open>
  Claim C4, as amended. In a menu bar where no entry without a \<^verbatim>\<open>category\<close> field and
  named \<open>c\<close> comes after an entry carrying the category \<open>c\<close> (the entries are \<open>pre\<close>,
  without the category, then \<open>post\<close>, without such a menu), the entries carrying the
  category \<open>c\<close> are, in entry order and as \<open>action_of\<close> makes them, the \<^verbatim>\<open>actions\<close> of
  the one record of \<open>c\<close>; when no menu named \<open>c\<close> precedes either, that record has
  exactly the fields \<^verbatim>\<open>name\<close> (equal to \<open>c\<close>), \<^verbatim>\<open>command\<close> (empty), \<^verbatim>\<open>saved_params\<close>
  (\<^verbatim>\<open>is_checked\<close>) and \<^verbatim>\<open>actions\<close>; and \<^verbatim>\<open>menus\<close> holds the records in the order in
  which their keys are first seen.
\<close>

theorem menu_actions_grouped:
  assumes "post_menubar order (PDict mb) = Inr out"
    and "map_of mb ''controls'' = Some (PList (pre @ post))"
    and "\<forall>e\<in>set pre. \<not> in_category c e"
    and "\<forall>e\<in>set post. \<not> is_menu_named c e"
    and "\<exists>e\<in>set post. in_category c e"
  shows "\<exists>categories d out'.
      out = PDict out' \<and> map_of out' ''menus'' = Some (PList (map snd categories))
      \<and> map fst categories = rev (remdups (rev (map entry_key (pre @ post))))
      \<and> map_of categories (key_of c) = Some (PDict d)
      \<and> map_of d ''actions'' = Some (PList (map action_of (filter (in_category c) (pre @ post))))
      \<and> ((\<forall>e\<in>set pre. \<not> is_menu_named c e) \<longrightarrow>
           (\<exists>c0. key_of c0 = key_of c \<and>
              d = [(''name'', c0), (''command'', PStr []), (''saved_params'', PStr ''is_checked''),
                   (''actions'', PList (map action_of (filter (in_category c) (pre @ post))))]))"
proof -
  from assms(1,2) obtain cs gs where l: "menu_loop (pre @ post) ([], []) = Inr (cs, gs)"
    and out: "out = PDict (AList.update ''groups'' (PList (list_of_set order gs))
                 (AList.update ''menus'' (PList (map snd cs))
                 (AList.update ''type'' (PStr ''MENUBAR'') (AList.delete ''controls'' mb))))"
    by (rule post_menubar_Inr)
  let ?o = "AList.update ''groups'' (PList (list_of_set order gs))
                 (AList.update ''menus'' (PList (map snd cs))
                 (AList.update ''type'' (PStr ''MENUBAR'') (AList.delete ''controls'' mb)))"
  have m: "map_of ?o ''menus'' = Some (PList (map snd cs))" by (simp add: update_conv')
  have k: "map fst cs = rev (remdups (rev (map entry_key (pre @ post))))"
    by (rule menu_loop_keys[OF l])
  from menu_loop_grouped[OF l assms(3,4,5)] obtain d where
    d: "map_of cs (key_of c) = Some (PDict d)
      \<and> map_of d ''actions'' = Some (PList (map action_of (filter (in_category c) (pre @ post))))
      \<and> ((\<forall>e\<in>set pre. \<not> is_menu_named c e) \<longrightarrow>
           (\<exists>c0. key_of c0 = key_of c \<and>
              d = [(''name'', c0), (''command'', PStr []), (''saved_params'', PStr ''is_checked''),
                   (''actions'', PList (map action_of (filter (in_category c) (pre @ post))))]))"
    by blast
  from out m k d have "out = PDict ?o \<and> map_of ?o ''menus'' = Some (PList (map snd cs))
      \<and> map fst cs = rev (remdups (rev (map entry_key (pre @ post))))
      \<and> map_of cs (key_of c) = Some (PDict d)
      \<and> map_of d ''actions'' = Some (PList (map action_of (filter (in_category c) (pre @ post))))
      \<and> ((\<forall>e\<in>set pre. \<not> is_menu_named c e) \<longrightarrow>
           (\<exists>c0. key_of c0 = key_of c \<and>
              d = [(''name'', c0), (''command'', PStr []), (''saved_params'', PStr ''is_checked''),
                   (''actions'', PList (map action_of (filter (in_category c) (pre @ post))))]))"
    by (intro conjI) simp_all
  then show ?thesis by - (rule exI[of _ cs], rule exI[of _ d], rule exI[of _ ?o], assumption)
qed

text \<open>
  The menu \<^verbatim>\<open>Edit\<close>, then two actions of \<^verbatim>\<open>File\<close> around an action of \<^verbatim>\<open>Edit\<close>:
  \<^verbatim>\<open>File\<close> is synthesized, second in \<^verbatim>\<open>menus\<close>, with its two actions in order.
\<close>

theorem menu_actions_grouped_witness:
  "post_menubar (\<lambda>gs. gs) (PDict (menubar_of ([menu_entry ''Edit''] @
       [action_entry ''Open'' ''File'', action_entry ''Undo'' ''Edit'', action_entry ''Close'' ''File''])))
   = Inr (PDict [(''type'', PStr ''MENUBAR''),
           (''menus'', PList
              [PDict [(''type'', PStr ''MENU''), (''name'', PStr ''Edit''),
                      (''actions'', PList [PDict [(''type'', PStr ''ACTION''), (''name'', PStr ''Undo'')]])],
               PDict [(''name'', PStr ''File''), (''command'', PStr []),
                      (''saved_params'', PStr ''is_checked''),
                      (''actions'', PList [PDict [(''type'', PStr ''ACTION''), (''name'', PStr ''Open'')],
                                           PDict [(''type'', PStr ''ACTION''), (''name'', PStr ''Close'')]])]]),
           (''groups'', PList [])])
   \<and> (\<exists>categories d.
        map fst categories = [PStr ''Edit'', PStr ''File'']
      \<and> map_of categories (PStr ''File'') = Some (PDict d)
      \<and> map_of d ''actions'' =
          Some (PList [PDict [(''type'', PStr ''ACTION''), (''name'', PStr ''Open'')],
                       PDict [(''type'', PStr ''ACTION''), (''name'', PStr ''Close'')]]))"
proof -
  let ?pre = "[menu_entry ''Edit'']"
  let ?post = "[action_entry ''Open'' ''File'', action_entry ''Undo'' ''Edit'', action_entry ''Close'' ''File'']"
  let ?out = "PDict [(''type'', PStr ''MENUBAR''),
           (''menus'', PList
              [PDict [(''type'', PStr ''MENU''), (''name'', PStr ''Edit''),
                      (''actions'', PList [PDict [(''type'', PStr ''ACTION''), (''name'', PStr ''Undo'')]])],
               PDict [(''name'', PStr ''File''), (''command'', PStr []),
                      (''saved_params'', PStr ''is_checked''),
                      (''actions'', PList [PDict [(''type'', PStr ''ACTION''), (''name'', PStr ''Open'')],
                                           PDict [(''type'', PStr ''ACTION''), (''name'', PStr ''Close'')]])]]),
           (''groups'', PList [])]"
  have 1: "post_menubar (\<lambda>gs. gs) (PDict (menubar_of (?pre @ ?post))) = Inr ?out" by code_simp
  have 2: "map_of (menubar_of (?pre @ ?post)) ''controls'' = Some (PList (?pre @ ?post))"
    by (simp add: menubar_of_def)
  have 3: "\<forall>e\<in>set ?pre. \<not> in_category (PStr ''File'') e"
    by (simp add: in_category_def menu_entry_def)
  have 4: "\<forall>e\<in>set ?post. \<not> is_menu_named (PStr ''File'') e"
    by (simp add: is_menu_named_def action_entry_def)
  have 5: "\<exists>e\<in>set ?post. in_category (PStr ''File'') e"
    by (simp add: in_category_def action_entry_def key_of_def)
  have 6: "rev (remdups (rev (map entry_key (?pre @ ?post)))) = [PStr ''Edit'', PStr ''File'']"
    by (simp add: entry_key_def menu_entry_def action_entry_def key_of_def)
  have 7: "map action_of (filter (in_category (PStr ''File'')) (?pre @ ?post)) =
       [PDict [(''type'', PStr ''ACTION''), (''name'', PStr ''Open'')],
        PDict [(''type'', PStr ''ACTION''), (''name'', PStr ''Close'')]]"
    by (simp add: in_category_def action_of_def as_action_def truthy_def menu_entry_def
        action_entry_def key_of_def)
  have 8: "key_of (PStr ''File'') = PStr ''File''" by (simp add: key_of_def)
  from menu_actions_grouped [OF 1 2 3 4 5, unfolded 6 7 8]
  obtain categories d where
    "map fst categories = [PStr ''Edit'', PStr ''File'']"
    "map_of categories (PStr ''File'') = Some (PDict d)"
    "map_of d ''actions'' =
          Some (PList [PDict [(''type'', PStr ''ACTION''), (''name'', PStr ''Open'')],
                       PDict [(''type'', PStr ''ACTION''), (''name'', PStr ''Close'')]])"
    by (elim exE conjE)
  then have "\<exists>categories d.
        map fst categories = [PStr ''Edit'', PStr ''File'']
      \<and> map_of categories (PStr ''File'') = Some (PDict d)
      \<and> map_of d ''actions'' =
          Some (PList [PDict [(''type'', PStr ''ACTION''), (''name'', PStr ''Open'')],
                       PDict [(''type'', PStr ''ACTION''), (''name'', PStr ''Close'')]])"
    by (intro exI conjI)
  with 1 show ?thesis by (rule conjI)
qed

text \<open>
  Claim C4 as it is written fails: \<^verbatim>\<open>Open\<close> and \<^verbatim>\<open>Close\<close> both carry the category
  \<^verbatim>\<open>File\<close>, the menu \<^verbatim>\<open>File\<close> stands between them and replaces the record that
  held \<^verbatim>\<open>Open\<close>, and the only record of \<^verbatim>\<open>File\<close> in \<^verbatim>\<open>menus\<close> holds \<^verbatim>\<open>Close\<close> alone.
\<close>

theorem menu_between_actions:
  "map action_of (filter (in_category (PStr ''File''))
       [action_entry ''Open'' ''File'', menu_entry ''File'', action_entry ''Close'' ''File''])
     = [PDict [(''type'', PStr ''ACTION''), (''name'', PStr ''Open'')],
        PDict [(''type'', PStr ''ACTION''), (''name'', PStr ''Close'')]]
   \<and> (\<forall>order. post_menubar order (PDict (menubar_of
       [action_entry ''Open'' ''File'', menu_entry ''File'', action_entry ''Close'' ''File'']))
     = Inr (PDict [(''type'', PStr ''MENUBAR''),
             (''menus'', PList
                [PDict [(''type'', PStr ''MENU''), (''name'', PStr ''File''),
                        (''actions'', PList [PDict [(''type'', PStr ''ACTION''), (''name'', PStr ''Close'')]])]]),
             (''groups'', PList [])]))"
proof -
  let ?es = "[action_entry ''Open'' ''File'', menu_entry ''File'', action_entry ''Close'' ''File'']"
  have 1: "map action_of (filter (in_category (PStr ''File'')) ?es)
     = [PDict [(''type'', PStr ''ACTION''), (''name'', PStr ''Open'')],
        PDict [(''type'', PStr ''ACTION''), (''name'', PStr ''Close'')]]"
    by code_simp
  have 2: "menu_loop ?es ([], []) =
      Inr ([(PStr ''File'', PDict [(''type'', PStr ''MENU''), (''name'', PStr ''File''),
              (''actions'', PList [PDict [(''type'', PStr ''ACTION''), (''name'', PStr ''Close'')]])])], [])"
    by code_simp
  have 3: "post_menubar order (PDict (menubar_of ?es))
     = Inr (PDict [(''type'', PStr ''MENUBAR''),
             (''menus'', PList
                [PDict [(''type'', PStr ''MENU''), (''name'', PStr ''File''),
                        (''actions'', PList [PDict [(''type'', PStr ''ACTION''), (''name'', PStr ''Close'')]])]]),
             (''groups'', PList [])])" for order
    using post_menubar_loop[OF _ 2, of "menubar_of ?es" order]
    by (simp add: menubar_of_def list_of_set_Nil AList.delete_eq)
  show ?thesis using 1 3 by blast
qed

section \<open>A separator among the actions\<close>





end
